theory Spec2Isabelle
  imports Main "HOL-Library.Word" "HOL-Library.Multiset" "HOL-Library.Log_Nat"
begin

unbundle bit_operations_syntax

section \<open>Python values\<close>

text \<open>
  Python integers are unbounded: they are \<open>int\<close>. A \<open>bytes\<close> or \<open>bytearray\<close> object is a
  list of 8-bit words. An exception is a value of \<open>py_error\<close> on the left of a sum.
\<close>

datatype py_error = IndexError | ValueError | ZeroDivisionError | OSError

type_synonym byte = "8 word"

definition bytes_getitem :: "byte list \<Rightarrow> nat \<Rightarrow> py_error + int" where
  "bytes_getitem raw i = (if i < length raw then Inr (uint (raw ! i)) else Inl IndexError)"

text \<open>Storing into a \<open>bytearray\<close>: the value must be in \<open>range(256)\<close>, which is checked
  first, and then the index must be in range.\<close>

definition bytearray_setitem :: "byte list \<Rightarrow> nat \<Rightarrow> int \<Rightarrow> py_error + byte list" where
  "bytearray_setitem buf i v =
     (if v < 0 \<or> 255 < v then Inl ValueError
      else if length buf \<le> i then Inl IndexError
      else Inr (buf[i := word_of_int v]))"

text \<open>Sequencing of two steps that may raise: the first exception ends the computation.\<close>

definition and_then :: "py_error + 'a \<Rightarrow> ('a \<Rightarrow> py_error + 'b) \<Rightarrow> py_error + 'b" where
  "and_then m f = (case m of Inl e \<Rightarrow> Inl e | Inr x \<Rightarrow> f x)"

subsection \<open>Floats\<close>

text \<open>
  A Python \<open>float\<close> is an IEEE binary64 number. The values of this program (quotients of
  13-bit samples by calibration ranges, products with a screen extent, differences of clock
  readings) are far from the ends of the exponent range, so a float is modelled as the
  rational it denotes and every arithmetic operation as the exact operation followed by
  \<open>fl64\<close>: rounding to 53 significant bits, to nearest, ties to even. The ends of the
  exponent range are not modelled: neither subnormal numbers, nor the \<open>OverflowError\<close> of a
  quotient or of \<open>int\<close> beyond the range of binary64, which takes operands of some 300
  digits.
\<close>

definition pow2 :: "int \<Rightarrow> rat" where
  "pow2 e = (if 0 \<le> e then 2 ^ nat e else 1 / 2 ^ nat (- e))"

text \<open>\<open>ilog2 x\<close> is the binary exponent of a positive \<open>x\<close>: \<open>2 ^ ilog2 x \<le> x < 2 ^ (ilog2 x + 1)\<close>.\<close>

definition ilog2 :: "rat \<Rightarrow> int" where
  "ilog2 x = (if 1 \<le> x then bitlen \<lfloor>x\<rfloor> - 1 else - bitlen (\<lceil>1 / x\<rceil> - 1))"

definition round_half_even :: "rat \<Rightarrow> int" where
  "round_half_even x =
     (let f = \<lfloor>x\<rfloor>; d = x - of_int f
      in if d < 1 / 2 then f else if 1 / 2 < d then f + 1 else if even f then f else f + 1)"

definition fl64 :: "rat \<Rightarrow> rat" where
  "fl64 x =
     (if x = 0 then 0
      else let u = pow2 (ilog2 \<bar>x\<bar> - 52) in of_int (round_half_even (x / u)) * u)"

text \<open>\<open>a / b\<close> on two integers: the correctly rounded quotient, or \<open>ZeroDivisionError\<close>.\<close>

definition truediv :: "int \<Rightarrow> int \<Rightarrow> py_error + rat" where
  "truediv a b = (if b = 0 then Inl ZeroDivisionError else Inr (fl64 (of_int a / of_int b)))"

text \<open>\<open>x * n\<close> for a float \<open>x\<close> and an integer \<open>n\<close>: \<open>n\<close> is converted to a float first.\<close>

definition float_mul_int :: "rat \<Rightarrow> int \<Rightarrow> rat" where
  "float_mul_int x n = fl64 (x * fl64 (of_int n))"

text \<open>\<open>a - b\<close> on two floats.\<close>

definition float_sub :: "rat \<Rightarrow> rat \<Rightarrow> rat" where
  "float_sub a b = fl64 (a - b)"

text \<open>\<open>int(x)\<close> truncates towards zero.\<close>

definition py_int :: "rat \<Rightarrow> int" where
  "py_int x = (if 0 \<le> x then \<lfloor>x\<rfloor> else \<lceil>x\<rceil>)"

section \<open>display\_driver.py: the shared bus\<close>

text \<open>
  The module drives GPIO lines and the SPI device. Each call is recorded as an event; a
  driver function returns the list of events it performs, in order, and its outcome.
  \<open>LockAcquire\<close> and \<open>LockRelease\<close> are the entry and exit of \<open>with _lock\<close>;
  \<open>WriteBytes2Raises\<close> is a call of \<open>_spi.writebytes2\<close> that raises.
\<close>

datatype level = LOW | HIGH

datatype event =
    LockAcquire
  | LockRelease
  | SetSpeed nat
  | GpioOutput nat level
  | WriteBytes2 "int list"
  | WriteBytes2Raises "int list"

text \<open>
  The transport: \<open>Some n\<close> when the next \<open>n\<close> calls of \<open>writebytes2\<close> succeed and the call after
  them raises \<open>OSError\<close>, \<open>None\<close> when no call raises. A driver function that returns gives
  back the transport as it is then.
\<close>

type_synonym bus = "nat option"

definition ILI_CS :: nat where "ILI_CS = 8"
definition ILI_DC :: nat where "ILI_DC = 25"
definition ST_CS :: nat where "ST_CS = 5"
definition ST_DC :: nat where "ST_DC = 23"

text \<open>\<open>for i in range(0, len(data), 4096): _spi.writebytes2(data[i:i+4096])\<close>: the slices,\<close>

function chunks :: "int list \<Rightarrow> int list list" where
  "chunks data = (if data = [] then [] else take 4096 data # chunks (drop 4096 data))"
  by pat_completeness auto
termination
  by (relation "measure length") auto

declare chunks.simps [simp del]

text \<open>and the calls. The call that raises ends the loop.\<close>

fun write_chunks :: "int list list \<Rightarrow> bus \<Rightarrow> event list \<times> (py_error + bus)" where
  "write_chunks [] b = ([], Inr b)"
| "write_chunks (c # cs) (Some 0) = ([WriteBytes2Raises c], Inl OSError)"
| "write_chunks (c # cs) (Some (Suc n)) =
     (WriteBytes2 c # fst (write_chunks cs (Some n)), snd (write_chunks cs (Some n)))"
| "write_chunks (c # cs) None =
     (WriteBytes2 c # fst (write_chunks cs None), snd (write_chunks cs None))"

text \<open>
  \<open>_write_bytes\<close>. There is no \<open>try\<close> around the loop: when a write raises, the line that
  drives chip-select high is not reached; leaving the \<open>with\<close> block releases the lock.
\<close>

definition write_bytes ::
  "nat \<Rightarrow> nat \<Rightarrow> bool \<Rightarrow> int list \<Rightarrow> nat \<Rightarrow> bus \<Rightarrow> event list \<times> (py_error + bus)" where
  "write_bytes cs_pin dc_pin dc_mode data speed b =
     (let w = write_chunks (chunks data) b in
      ([LockAcquire, SetSpeed speed,
        GpioOutput dc_pin (if dc_mode then HIGH else LOW),
        GpioOutput cs_pin LOW]
       @ fst w
       @ (case snd w of Inl e \<Rightarrow> [] | Inr b' \<Rightarrow> [GpioOutput cs_pin HIGH])
       @ [LockRelease],
       snd w))"

text \<open>One call after another: an exception of the first ends both.\<close>

definition then_run ::
  "event list \<times> (py_error + bus) \<Rightarrow> (bus \<Rightarrow> event list \<times> (py_error + bus)) \<Rightarrow>
   event list \<times> (py_error + bus)" where
  "then_run a f = (case snd a of Inl e \<Rightarrow> a | Inr b \<Rightarrow> (fst a @ fst (f b), snd (f b)))"

definition cmd :: "nat \<Rightarrow> nat \<Rightarrow> int \<Rightarrow> nat \<Rightarrow> bus \<Rightarrow> event list \<times> (py_error + bus)" where
  "cmd cs dc c speed b = write_bytes cs dc False [c] speed b"

definition dat :: "nat \<Rightarrow> nat \<Rightarrow> int list \<Rightarrow> nat \<Rightarrow> bus \<Rightarrow> event list \<times> (py_error + bus)" where
  "dat cs dc data speed b = write_bytes cs dc True data speed b"

text \<open>\<open>data\<close> is \<open>None\<close> or a list; \<open>if data:\<close> holds for a list that is not empty.\<close>

definition cmd_dat ::
  "nat \<Rightarrow> nat \<Rightarrow> int \<Rightarrow> int list option \<Rightarrow> nat \<Rightarrow> bus \<Rightarrow> event list \<times> (py_error + bus)" where
  "cmd_dat cs dc c data speed b =
     then_run (cmd cs dc c speed b) (\<lambda>b'.
       case data of
         None \<Rightarrow> ([], Inr b')
       | Some d \<Rightarrow> if d \<noteq> [] then dat cs dc d speed b' else ([], Inr b'))"

text \<open>
  What the bus sees of a list of events. \<open>is_write\<close>: a call of \<open>writebytes2\<close>.
  \<open>cs_released_between\<close>: the chip-select line \<open>cs\<close> is driven high after a call of
  \<open>writebytes2\<close> and before a later one.
\<close>

fun is_write :: "event \<Rightarrow> bool" where
  "is_write (WriteBytes2 d) = True"
| "is_write (WriteBytes2Raises d) = True"
| "is_write e = False"

fun cs_released_between :: "nat \<Rightarrow> bool \<Rightarrow> event list \<Rightarrow> bool" where
  "cs_released_between cs started [] = False"
| "cs_released_between cs started (e # es) =
     (if started \<and> e = GpioOutput cs HIGH \<and> list_ex is_write es then True
      else cs_released_between cs (started \<or> is_write e) es)"

text \<open>The lock is given up after a call of \<open>writebytes2\<close> and before a later one.\<close>

fun lock_released_between :: "bool \<Rightarrow> event list \<Rightarrow> bool" where
  "lock_released_between started [] = False"
| "lock_released_between started (e # es) =
     (if started \<and> e = LockRelease \<and> list_ex is_write es then True
      else lock_released_between (started \<or> is_write e) es)"

text \<open>
  \<open>bracketed cs Idle es\<close>: the events are a sequence of transfers to the target \<open>cs\<close>, each of
  this form and nothing else: the lock is taken; the speed and lines other than \<open>cs\<close> are
  set; \<open>cs\<close> is driven low; \<open>writebytes2\<close> is called, any number of times, and returns;
  \<open>cs\<close> is driven high; the lock is released.
\<close>

datatype phase = Idle | Locked | Selected | Deselected

definition bracket_step :: "nat \<Rightarrow> phase \<Rightarrow> event \<Rightarrow> phase option" where
  "bracket_step cs ph e =
     (case ph of
        Idle \<Rightarrow> (case e of LockAcquire \<Rightarrow> Some Locked | _ \<Rightarrow> None)
      | Locked \<Rightarrow>
          (case e of
             SetSpeed s \<Rightarrow> Some Locked
           | GpioOutput p l \<Rightarrow>
               if p \<noteq> cs then Some Locked else if l = LOW then Some Selected else None
           | _ \<Rightarrow> None)
      | Selected \<Rightarrow>
          (case e of
             WriteBytes2 d \<Rightarrow> Some Selected
           | GpioOutput p l \<Rightarrow> if p = cs \<and> l = HIGH then Some Deselected else None
           | _ \<Rightarrow> None)
      | Deselected \<Rightarrow> (case e of LockRelease \<Rightarrow> Some Idle | _ \<Rightarrow> None))"

fun bracketed :: "nat \<Rightarrow> phase \<Rightarrow> event list \<Rightarrow> bool" where
  "bracketed cs ph [] = (ph = Idle)"
| "bracketed cs ph (e # es) =
     (case bracket_step cs ph e of None \<Rightarrow> False | Some ph' \<Rightarrow> bracketed cs ph' es)"

text \<open>The bytes that calls of \<open>writebytes2\<close> have sent, in order.\<close>

fun written :: "event list \<Rightarrow> int list" where
  "written [] = []"
| "written (WriteBytes2 d # es) = d @ written es"
| "written (e # es) = written es"

section \<open>display\_driver.py: the two panels\<close>

definition rgb565 :: "int \<Rightarrow> int \<Rightarrow> int \<Rightarrow> int" where
  "rgb565 r g b = push_bit 8 (r AND 0xF8) OR push_bit 3 (g AND 0xFC) OR drop_bit 3 b"

text \<open>One pass of the loop body of \<open>image\<close>, for pixel \<open>i\<close>.\<close>

definition encode_pixel :: "byte list \<Rightarrow> nat \<Rightarrow> byte list \<Rightarrow> py_error + byte list" where
  "encode_pixel raw i buf =
     and_then (bytes_getitem raw (i * 3)) (\<lambda>r.
     and_then (bytes_getitem raw (i * 3 + 1)) (\<lambda>g.
     and_then (bytes_getitem raw (i * 3 + 2)) (\<lambda>b.
       let c = rgb565 r g b in
       and_then (bytearray_setitem buf (i * 2) (drop_bit 8 c)) (\<lambda>buf1.
       bytearray_setitem buf1 (i * 2 + 1) (c AND 0xFF)))))"

fun encode_loop :: "byte list \<Rightarrow> nat list \<Rightarrow> byte list \<Rightarrow> py_error + byte list" where
  "encode_loop raw [] buf = Inr buf"
| "encode_loop raw (i # is) buf =
     and_then (encode_pixel raw i buf) (\<lambda>buf'. encode_loop raw is buf')"

text \<open>
  \<open>buf = bytearray(W * H * 2)\<close> followed by \<open>for i in range(W * H)\<close>; \<open>raw\<close> is
  \<open>img.tobytes()\<close> of the resized RGB image. The loop is the same text in both classes.
\<close>

definition encode_frame :: "nat \<Rightarrow> nat \<Rightarrow> byte list \<Rightarrow> py_error + byte list" where
  "encode_frame W H raw = encode_loop raw [0..<W * H] (replicate (W * H * 2) 0)"

definition ILI9341_W :: nat where "ILI9341_W = 320"
definition ILI9341_H :: nat where "ILI9341_H = 240"
definition ILI9341_SPD :: nat where "ILI9341_SPD = 40000000"

definition ILI9341_c :: "int \<Rightarrow> int list option \<Rightarrow> bus \<Rightarrow> event list \<times> (py_error + bus)" where
  "ILI9341_c c data b = cmd_dat ILI_CS ILI_DC c data ILI9341_SPD b"

definition ILI9341_window ::
  "int \<Rightarrow> int \<Rightarrow> int \<Rightarrow> int \<Rightarrow> bus \<Rightarrow> event list \<times> (py_error + bus)" where
  "ILI9341_window x0 y0 x1 y1 b =
     then_run (ILI9341_c 0x2A (Some [drop_bit 8 x0, x0 AND 0xFF, drop_bit 8 x1, x1 AND 0xFF]) b)
       (\<lambda>b1.
     then_run (ILI9341_c 0x2B (Some [drop_bit 8 y0, y0 AND 0xFF, drop_bit 8 y1, y1 AND 0xFF]) b1)
       (\<lambda>b2.
     ILI9341_c 0x2C None b2))"

text \<open>\<open>image\<close>: the loop first, then the window, then the buffer as one data transfer.\<close>

definition ILI9341_image :: "byte list \<Rightarrow> bus \<Rightarrow> event list \<times> (py_error + bus)" where
  "ILI9341_image raw b =
     (case encode_frame ILI9341_W ILI9341_H raw of
        Inl e \<Rightarrow> ([], Inl e)
      | Inr buf \<Rightarrow>
          then_run (ILI9341_window 0 0 (int ILI9341_W - 1) (int ILI9341_H - 1) b) (\<lambda>b'.
            dat ILI_CS ILI_DC (map uint buf) ILI9341_SPD b'))"

definition ST7735_W :: nat where "ST7735_W = 160"
definition ST7735_H :: nat where "ST7735_H = 128"
definition ST7735_SPD :: nat where "ST7735_SPD = 15000000"

definition ST7735_c :: "int \<Rightarrow> int list option \<Rightarrow> bus \<Rightarrow> event list \<times> (py_error + bus)" where
  "ST7735_c c data b = cmd_dat ST_CS ST_DC c data ST7735_SPD b"

definition ST7735_window ::
  "int \<Rightarrow> int \<Rightarrow> int \<Rightarrow> int \<Rightarrow> bus \<Rightarrow> event list \<times> (py_error + bus)" where
  "ST7735_window x0 y0 x1 y1 b =
     then_run (ST7735_c 0x2A (Some [0x00, x0, 0x00, x1]) b) (\<lambda>b1.
     then_run (ST7735_c 0x2B (Some [0x00, y0, 0x00, y1]) b1) (\<lambda>b2.
     ST7735_c 0x2C None b2))"

definition ST7735_image :: "byte list \<Rightarrow> bus \<Rightarrow> event list \<times> (py_error + bus)" where
  "ST7735_image raw b =
     (case encode_frame ST7735_W ST7735_H raw of
        Inl e \<Rightarrow> ([], Inl e)
      | Inr buf \<Rightarrow>
          then_run (ST7735_window 0 0 (int ST7735_W - 1) (int ST7735_H - 1) b) (\<lambda>b'.
            dat ST_CS ST_DC (map uint buf) ST7735_SPD b'))"

section \<open>display\_driver.py: touch\<close>

definition SCREEN_W :: int where "SCREEN_W = 320"
definition SCREEN_H :: int where "SCREEN_H = 240"

text \<open>The calibration constants and flags of the module, as one value.\<close>

record calibration =
  CAL_X_MIN :: int
  CAL_X_MAX :: int
  CAL_Y_MIN :: int
  CAL_Y_MAX :: int
  CAL_SWAP_XY :: bool
  CAL_FLIP_X :: bool
  CAL_FLIP_Y :: bool
  TOUCH_IRQ_ACTIVE_HIGH :: bool

definition module_calibration :: calibration where
  "module_calibration =
     \<lparr> CAL_X_MIN = 445, CAL_X_MAX = 3492, CAL_Y_MIN = 606, CAL_Y_MAX = 3615,
       CAL_SWAP_XY = False, CAL_FLIP_X = False, CAL_FLIP_Y = False,
       TOUCH_IRQ_ACTIVE_HIGH = False \<rparr>"

text \<open>\<open>((r[1] << 8) | r[2]) >> 3\<close> on the second and third byte of a reply of \<open>xfer2\<close>.\<close>

definition adc_value :: "byte \<times> byte \<times> byte \<Rightarrow> int" where
  "adc_value r = (case r of (r0, r1, r2) \<Rightarrow> drop_bit 3 (push_bit 8 (uint r1) OR uint r2))"

text \<open>\<open>vals.sort(); return sum(vals[2:6]) // 4\<close>\<close>

definition middle_mean :: "int list \<Rightarrow> int" where
  "middle_mean vals = sum_list (take (6 - 2) (drop 2 (sort vals))) div 4"

text \<open>\<open>ch\<close>, given the replies of its eight transfers.\<close>

definition ch :: "(byte \<times> byte \<times> byte) list \<Rightarrow> int" where
  "ch replies = middle_mean (map adc_value (take 8 replies))"

definition raw_touch :: "(byte \<times> byte \<times> byte) list \<Rightarrow> (byte \<times> byte \<times> byte) list \<Rightarrow> int \<times> int" where
  "raw_touch xs ys = (ch xs, ch ys)"

text \<open>One axis of the mapping: \<open>int((raw - lo) / max(1, hi - lo) * extent)\<close>.\<close>

definition scale_axis :: "int \<Rightarrow> int \<Rightarrow> int \<Rightarrow> int \<Rightarrow> py_error + int" where
  "scale_axis raw lo hi extent =
     and_then (truediv (raw - lo) (max 1 (hi - lo))) (\<lambda>q.
       Inr (py_int (float_mul_int q extent)))"

text \<open>
  \<open>read_touch\<close>: \<open>irq\<close> is the level read on the interrupt line, \<open>raw\<close> what
  \<open>_raw_touch()\<close> returns when it is called.
\<close>

definition read_touch :: "calibration \<Rightarrow> bool \<Rightarrow> int \<times> int \<Rightarrow> py_error + (int \<times> int) option" where
  "read_touch cal irq raw =
     (if (if \<not> TOUCH_IRQ_ACTIVE_HIGH cal then irq else \<not> irq) then Inr None
      else
        let rx = (if CAL_SWAP_XY cal then snd raw else fst raw);
            ry = (if CAL_SWAP_XY cal then fst raw else snd raw)
        in
        and_then (scale_axis rx (CAL_X_MIN cal) (CAL_X_MAX cal) SCREEN_W) (\<lambda>x.
        and_then (scale_axis ry (CAL_Y_MIN cal) (CAL_Y_MAX cal) SCREEN_H) (\<lambda>y.
          let x' = (if CAL_FLIP_X cal then SCREEN_W - 1 - x else x);
              y' = (if CAL_FLIP_Y cal then SCREEN_H - 1 - y else y)
          in Inr (Some (max 0 (min (SCREEN_W - 1) x'), max 0 (min (SCREEN_H - 1) y'))))))"

section \<open>ui.py: hit regions\<close>

definition SCREEN_DASHBOARD :: string where "SCREEN_DASHBOARD = ''dashboard''"
definition SCREEN_APPS :: string where "SCREEN_APPS = ''apps''"
definition SCREEN_BRIEF :: string where "SCREEN_BRIEF = ''brief''"
definition SCREEN_EMAILS :: string where "SCREEN_EMAILS = ''emails''"
definition SCREEN_SYSMON :: string where "SCREEN_SYSMON = ''sysmon''"
definition SCREEN_FOCUS :: string where "SCREEN_FOCUS = ''focus''"

definition ILI_H :: int where "ILI_H = 240"
definition BOT_H :: int where "BOT_H = 18"

type_synonym 'a region = "int \<times> int \<times> int \<times> int \<times> 'a"

definition inside :: "int \<Rightarrow> int \<Rightarrow> 'a region \<Rightarrow> bool" where
  "inside tx ty r = (case r of (x0, y0, x1, y1, payload) \<Rightarrow> x0 \<le> tx \<and> tx \<le> x1 \<and> y0 \<le> ty \<and> ty \<le> y1)"

definition payload_of :: "'a region \<Rightarrow> 'a" where
  "payload_of r = (case r of (x0, y0, x1, y1, payload) \<Rightarrow> payload)"

fun hit_test :: "int \<Rightarrow> int \<Rightarrow> 'a region list \<Rightarrow> 'a option" where
  "hit_test tx ty [] = None"
| "hit_test tx ty ((x0, y0, x1, y1, payload) # regions) =
     (if x0 \<le> tx \<and> tx \<le> x1 \<and> y0 \<le> ty \<and> ty \<le> y1 then Some payload
      else hit_test tx ty regions)"

definition DASHBOARD_PIE_REGION :: "string region list" where
  "DASHBOARD_PIE_REGION = [(14, 82, 96, 162, SCREEN_APPS)]"

definition BACK_REGION :: "string region list" where
  "BACK_REGION = [(0, ILI_H - BOT_H, 100, ILI_H, SCREEN_DASHBOARD)]"

section \<open>ui-both-displays.py: state, touch routing, focus timer\<close>

text \<open>The fields of \<open>AppState\<close> that touch routing and the focus timer read or write.\<close>

record AppState =
  screen :: string
  apps_rects :: "string region list"
  clean_done :: bool
  focus_session_mins :: int
  focus_elapsed_mins :: int
  focus_active :: bool
  focus_app :: string
  focus_message :: string

definition AppState_init :: AppState where
  "AppState_init =
     \<lparr> screen = SCREEN_DASHBOARD, apps_rects = [], clean_done = False,
       focus_session_mins = 25, focus_elapsed_mins = 0, focus_active = False,
       focus_app = '''', focus_message = '''' \<rparr>"

definition DEBOUNCE_MS :: int where "DEBOUNCE_MS = 300"

text \<open>\<open>if target:\<close> on what \<open>hit_test\<close> returns: \<open>None\<close> and the empty string are false.\<close>

definition truthy :: "string option \<Rightarrow> bool" where
  "truthy t = (case t of None \<Rightarrow> False | Some s \<Rightarrow> s \<noteq> [])"

text \<open>\<open>handle_touch\<close> returns its result and the new value of the global \<open>state\<close>.\<close>

definition handle_touch :: "int \<Rightarrow> int \<Rightarrow> AppState \<Rightarrow> bool \<times> AppState" where
  "handle_touch x y st =
     (let s = screen st in
      if s = SCREEN_DASHBOARD then
        (let target = hit_test x y DASHBOARD_PIE_REGION in
         if truthy target then (True, st\<lparr>screen := the target\<rparr>) else (False, st))
      else if s = SCREEN_APPS then
        (let target = hit_test x y (apps_rects st) in
         if truthy target then (True, st\<lparr>screen := the target\<rparr>)
         else
           let back = hit_test x y BACK_REGION in
           if truthy back then (True, st\<lparr>screen := the back\<rparr>) else (False, st))
      else
        (let back = hit_test x y BACK_REGION in
         if truthy back then
           (let st1 = (if s = SCREEN_FOCUS \<and> focus_active st
                       then st\<lparr>focus_active := False, focus_elapsed_mins := 0,
                               focus_message := ''Session ended.''\<rparr>
                       else st);
                st2 = (if s = SCREEN_SYSMON then st1\<lparr>clean_done := False\<rparr> else st1)
            in (True, st2\<lparr>screen := the back\<rparr>))
         else if s = SCREEN_SYSMON \<and> \<not> clean_done st then (True, st\<lparr>clean_done := True\<rparr>)
         else (False, st)))"

text \<open>
  The touch part of one pass of the loop of \<open>main\<close>. \<open>pt\<close> is what \<open>read_touch()\<close> returned,
  \<open>now_ms\<close> the value of \<open>_time.time() * 1000\<close>. The loop's variable \<open>last_touch_ms\<close> and
  the global \<open>state\<close> are passed and returned; the third component is \<open>Some changed\<close> when
  \<open>handle_touch\<close> was called and \<open>None\<close> when it was not.
\<close>

definition touch_step ::
  "rat \<Rightarrow> (int \<times> int) option \<Rightarrow> rat \<times> AppState \<Rightarrow> rat \<times> AppState \<times> bool option" where
  "touch_step now_ms pt v =
     (let last_touch_ms = fst v; st = snd v in
      case pt of
        None \<Rightarrow> (last_touch_ms, st, None)
      | Some p \<Rightarrow>
          if of_int DEBOUNCE_MS < float_sub now_ms last_touch_ms then
            (let r = handle_touch (fst p) (snd p) st in (now_ms, snd r, Some (fst r)))
          else (last_touch_ms, st, None))"

text \<open>A run of the loop over detected touches, each with its clock reading, oldest first;
  the result lists for each touch whether it was routed.\<close>

fun touch_run :: "(rat \<times> int \<times> int) list \<Rightarrow> rat \<times> AppState \<Rightarrow> bool list" where
  "touch_run [] v = []"
| "touch_run ((t, p) # ts) v =
     (let r = touch_step t (Some p) v
      in (snd (snd r) \<noteq> None) # touch_run ts (fst r, fst (snd r)))"

text \<open>\<open>tick_focus\<close>: \<open>now\<close> is \<open>_time.time()\<close>; the globals \<open>_focus_last_tick\<close> and \<open>state\<close> are
  passed and returned.\<close>

definition tick_focus :: "rat \<Rightarrow> rat \<times> AppState \<Rightarrow> rat \<times> AppState" where
  "tick_focus now v =
     (let focus_last_tick = fst v; st = snd v in
      if \<not> focus_active st then (focus_last_tick, st)
      else if 60 \<le> float_sub now focus_last_tick then
        (let st1 = st\<lparr>focus_elapsed_mins := focus_elapsed_mins st + 1\<rparr>
         in (now,
             if focus_session_mins st1 \<le> focus_elapsed_mins st1
             then st1\<lparr>focus_active := False, focus_message := ''Session complete!''\<rparr>
             else st1))
      else (focus_last_tick, st))"

fun tick_run :: "rat list \<Rightarrow> rat \<times> AppState \<Rightarrow> rat \<times> AppState" where
  "tick_run [] v = v"
| "tick_run (now # nows) v = tick_run nows (tick_focus now v)"

section \<open>Rounding to binary64\<close>

lemma pow2_powi: "pow2 e = 2 powi e"
  by (simp add: pow2_def power_int_def inverse_eq_divide power_one_over)

lemma pow2_pos: "0 < pow2 e"
  by (simp add: pow2_powi)

lemma pow2_add: "pow2 (a + b) = pow2 a * pow2 b"
  by (simp add: pow2_powi power_int_add)

lemma pow2_nat: "0 \<le> e \<Longrightarrow> pow2 e = 2 ^ nat e"
  by (simp add: pow2_def)

lemma pow2_mono:
  assumes "a \<le> b"
  shows "pow2 a \<le> pow2 b"
proof -
  have "pow2 b = pow2 a * pow2 (b - a)"
    using pow2_add [of a "b - a"] by simp
  moreover have "1 \<le> pow2 (b - a)"
    using assms by (simp add: pow2_nat)
  ultimately show ?thesis
    using pow2_pos [of a] by simp
qed

lemma pow2_less_imp: "pow2 a < pow2 b \<Longrightarrow> a < b"
  using pow2_mono [of b a] by (cases "a < b") simp_all

lemma ilog2_bounds:
  assumes "0 < x"
  shows "pow2 (ilog2 x) \<le> x" and "x < pow2 (ilog2 x + 1)"
proof -
  have "pow2 (ilog2 x) \<le> x \<and> x < pow2 (ilog2 x + 1)"
  proof (cases "1 \<le> x")
    case True
    let ?n = "\<lfloor>x\<rfloor>"
    let ?b = "bitlen ?n"
    from True have n: "0 < ?n" by simp
    from bitlen_bounds [OF n] have lo: "2 ^ nat (?b - 1) \<le> ?n" and hi: "?n < 2 ^ nat ?b"
      by simp_all
    have b: "1 \<le> ?b"
      using n bitlen_eq_zero_iff [of ?n] bitlen_nonneg [of ?n] by linarith
    have e: "ilog2 x = ?b - 1" using True by (simp add: ilog2_def)
    have "pow2 (?b - 1) = of_int (2 ^ nat (?b - 1))"
      using b by (simp add: pow2_nat)
    also have "\<dots> \<le> of_int ?n"
      using lo by (simp only: of_int_le_iff)
    also have "\<dots> \<le> x" by simp
    finally have l: "pow2 (ilog2 x) \<le> x" by (simp only: e)
    have "x < of_int (?n + 1)"
      using floor_correct [of x] by simp
    also have "\<dots> \<le> of_int (2 ^ nat ?b)"
    proof -
      from hi have "?n + 1 \<le> 2 ^ nat ?b" by linarith
      then show ?thesis by (simp only: of_int_le_iff)
    qed
    also have "\<dots> = pow2 ?b"
      using b by (simp add: pow2_nat)
    finally have "x < pow2 (ilog2 x + 1)" by (simp add: e)
    with l show ?thesis by simp
  next
    case False
    let ?y = "1 / x"
    let ?m = "\<lceil>?y\<rceil> - 1"
    let ?b = "bitlen ?m"
    from False assms have y1: "1 < ?y" by simp
    then have m: "0 < ?m" by (simp add: less_ceiling_iff)
    from bitlen_bounds [OF m] have lo: "2 ^ nat (?b - 1) \<le> ?m" and hi: "?m < 2 ^ nat ?b"
      by simp_all
    have b: "1 \<le> ?b"
      using m bitlen_eq_zero_iff [of ?m] bitlen_nonneg [of ?m] by linarith
    have e: "ilog2 x = - ?b" using False by (simp add: ilog2_def)
    have my: "of_int ?m < ?y"
      using less_ceiling_iff [of ?m ?y] by simp
    have ym: "?y \<le> of_int (?m + 1)"
      by simp
    have p1: "pow2 (- ?b) = 1 / 2 ^ nat ?b"
      using b by (simp add: pow2_def)
    have p2: "pow2 (1 - ?b) = 1 / 2 ^ nat (?b - 1)"
    proof (cases "?b = 1")
      case True
      then show ?thesis by (simp add: pow2_def)
    next
      case False
      with b have "1 - ?b < 0" by simp
      then have "pow2 (1 - ?b) = 1 / 2 ^ nat (- (1 - ?b))"
        by (simp add: pow2_def)
      then show ?thesis by simp
    qed
    have "?y \<le> of_int (2 ^ nat ?b)"
    proof -
      from hi have "?m + 1 \<le> 2 ^ nat ?b" by linarith
      then have "(of_int (?m + 1) :: rat) \<le> of_int (2 ^ nat ?b)"
        by (simp only: of_int_le_iff)
      with ym show ?thesis by linarith
    qed
    then have "?y \<le> 2 ^ nat ?b" by simp
    moreover have y0: "0 < ?y" using y1 by linarith
    ultimately have "inverse (2 ^ nat ?b) \<le> inverse ?y"
      by (intro le_imp_inverse_le)
    then have l: "pow2 (ilog2 x) \<le> x"
      by (simp add: e p1 inverse_eq_divide)
    have "(of_int (2 ^ nat (?b - 1)) :: rat) \<le> of_int ?m"
      using lo by (simp only: of_int_le_iff)
    with my have "2 ^ nat (?b - 1) < ?y" by simp
    then have "inverse ?y < inverse (2 ^ nat (?b - 1))"
      by (intro less_imp_inverse_less) simp_all
    then have "x < pow2 (ilog2 x + 1)"
      by (simp add: e p2 inverse_eq_divide)
    with l show ?thesis by simp
  qed
  then show "pow2 (ilog2 x) \<le> x" and "x < pow2 (ilog2 x + 1)" by simp_all
qed

lemma ilog2_mono:
  assumes "0 < x" and "x \<le> y"
  shows "ilog2 x \<le> ilog2 y"
proof -
  from assms have y: "0 < y" by simp
  have "pow2 (ilog2 x) \<le> x" using assms(1) by (rule ilog2_bounds)
  also have "\<dots> \<le> y" by fact
  also have "\<dots> < pow2 (ilog2 y + 1)" using y by (rule ilog2_bounds)
  finally have "ilog2 x < ilog2 y + 1" by (rule pow2_less_imp)
  then show ?thesis by simp
qed


lemma round_half_even_of_int: "round_half_even (of_int n) = n"
  by (simp add: round_half_even_def)

lemma round_half_even_range: "\<lfloor>x\<rfloor> \<le> round_half_even x \<and> round_half_even x \<le> \<lfloor>x\<rfloor> + 1"
  by (simp add: round_half_even_def Let_def)

lemma round_half_even_mono:
  assumes "x \<le> y"
  shows "round_half_even x \<le> round_half_even y"
proof (cases "\<lfloor>x\<rfloor> = \<lfloor>y\<rfloor>")
  case True
  with assms have "x - of_int \<lfloor>x\<rfloor> \<le> y - of_int \<lfloor>y\<rfloor>" by simp
  with True show ?thesis
    by (simp add: round_half_even_def Let_def)
next
  case False
  with assms have "\<lfloor>x\<rfloor> < \<lfloor>y\<rfloor>"
    using floor_mono [of x y] by linarith
  with round_half_even_range [of x] round_half_even_range [of y] show ?thesis
    by linarith
qed

lemma round_half_even_le: "x \<le> of_int n \<Longrightarrow> round_half_even x \<le> n"
  using round_half_even_mono [of x "of_int n"] by (simp add: round_half_even_of_int)

lemma round_half_even_ge: "of_int n \<le> x \<Longrightarrow> n \<le> round_half_even x"
  using round_half_even_mono [of "of_int n" x] by (simp add: round_half_even_of_int)

lemma fl64_pos:
  assumes "0 < x"
  shows "fl64 x = of_int (round_half_even (x / pow2 (ilog2 x - 52))) * pow2 (ilog2 x - 52)"
  using assms by (simp add: fl64_def Let_def)

lemma pow2_split: "pow2 e = pow2 52 * pow2 (e - 52)" "pow2 (e + 1) = pow2 53 * pow2 (e - 52)"
proof -
  have "52 + (e - 52) = e" and "53 + (e - 52) = e + 1" by simp_all
  with pow2_add [of 52 "e - 52"] pow2_add [of 53 "e - 52"]
  show "pow2 e = pow2 52 * pow2 (e - 52)" "pow2 (e + 1) = pow2 53 * pow2 (e - 52)"
    by simp_all
qed

lemma fl64_pos_bounds:
  assumes "0 < x"
  shows "pow2 (ilog2 x) \<le> fl64 x" and "fl64 x \<le> pow2 (ilog2 x + 1)"
proof -
  let ?e = "ilog2 x"
  let ?u = "pow2 (?e - 52)"
  have u: "0 < ?u" by (rule pow2_pos)
  have p52: "pow2 52 = of_int (2 ^ 52)" and p53: "pow2 53 = of_int (2 ^ 53)"
    by (simp_all add: pow2_def)
  have "pow2 52 * ?u \<le> x"
    using ilog2_bounds(1) [OF assms] by (simp only: pow2_split(1) [symmetric])
  then have "pow2 52 \<le> x / ?u"
    using u by (simp add: pos_le_divide_eq)
  then have "2 ^ 52 \<le> round_half_even (x / ?u)"
    unfolding p52 by (rule round_half_even_ge)
  then have "(of_int (2 ^ 52) :: rat) \<le> of_int (round_half_even (x / ?u))"
    by (simp only: of_int_le_iff)
  then have "pow2 52 * ?u \<le> of_int (round_half_even (x / ?u)) * ?u"
    unfolding p52 using u by (intro mult_right_mono) simp_all
  then show "pow2 ?e \<le> fl64 x"
    by (simp only: pow2_split(1) [symmetric] fl64_pos [OF assms])
  have "x \<le> pow2 53 * ?u"
    using ilog2_bounds(2) [OF assms] by (simp only: pow2_split(2) [symmetric])
  then have "x / ?u \<le> pow2 53"
    using u by (simp add: pos_divide_le_eq)
  then have "round_half_even (x / ?u) \<le> 2 ^ 53"
    unfolding p53 by (rule round_half_even_le)
  then have "(of_int (round_half_even (x / ?u)) :: rat) \<le> of_int (2 ^ 53)"
    by (simp only: of_int_le_iff)
  then have "of_int (round_half_even (x / ?u)) * ?u \<le> pow2 53 * ?u"
    unfolding p53 using u by (intro mult_right_mono) simp_all
  then show "fl64 x \<le> pow2 (?e + 1)"
    by (simp only: pow2_split(2) [symmetric] fl64_pos [OF assms])
qed

lemma fl64_mono_pos:
  assumes "0 < x" and "x \<le> y"
  shows "fl64 x \<le> fl64 y"
proof -
  from assms have y: "0 < y" by simp
  show ?thesis
  proof (cases "ilog2 x = ilog2 y")
    case True
    let ?u = "pow2 (ilog2 y - 52)"
    have u: "0 < ?u" by (rule pow2_pos)
    from assms(2) u have "x / ?u \<le> y / ?u"
      by (simp add: divide_right_mono)
    then have "round_half_even (x / ?u) \<le> round_half_even (y / ?u)"
      by (rule round_half_even_mono)
    then have "(of_int (round_half_even (x / ?u)) :: rat) \<le> of_int (round_half_even (y / ?u))"
      by (simp only: of_int_le_iff)
    then have "of_int (round_half_even (x / ?u)) * ?u \<le> of_int (round_half_even (y / ?u)) * ?u"
      using u by (intro mult_right_mono) simp_all
    then show ?thesis
      by (simp only: fl64_pos [OF assms(1)] fl64_pos [OF y] True)
  next
    case False
    with ilog2_mono [OF assms] have "ilog2 x + 1 \<le> ilog2 y" by simp
    then have "pow2 (ilog2 x + 1) \<le> pow2 (ilog2 y)" by (rule pow2_mono)
    with fl64_pos_bounds(2) [OF assms(1)] fl64_pos_bounds(1) [OF y] show ?thesis
      by linarith
  qed
qed

lemma fl64_nonpos:
  assumes "x \<le> 0"
  shows "fl64 x \<le> 0"
proof (cases "x = 0")
  case True
  then show ?thesis by (simp add: fl64_def)
next
  case False
  let ?u = "pow2 (ilog2 \<bar>x\<bar> - 52)"
  have u: "0 < ?u" by (rule pow2_pos)
  from assms u have "x / ?u \<le> of_int 0"
    by (simp add: divide_le_0_iff)
  then have "round_half_even (x / ?u) \<le> 0"
    by (rule round_half_even_le)
  then have "(of_int (round_half_even (x / ?u)) :: rat) \<le> 0"
    by simp
  then have "of_int (round_half_even (x / ?u)) * ?u \<le> 0"
    using u by (simp add: mult_le_0_iff)
  with False show ?thesis
    by (simp add: fl64_def Let_def)
qed

lemma fl64_le_fixed:
  assumes "x \<le> c" and "0 < c" and "fl64 c = c"
  shows "fl64 x \<le> c"
proof (cases "0 < x")
  case True
  from fl64_mono_pos [OF True assms(1)] assms(3) show ?thesis by simp
next
  case False
  then have "fl64 x \<le> 0" by (intro fl64_nonpos) simp
  with assms(2) show ?thesis by simp
qed

lemma fl64_ge_fixed:
  assumes "c \<le> x" and "0 < c" and "fl64 c = c"
  shows "c \<le> fl64 x"
  using fl64_mono_pos [OF assms(2,1)] assms(3) by simp

lemma fl64_300: "fl64 300 = 300"
  by code_simp

lemma fl64_60: "fl64 60 = 60"
  by code_simp

lemma fl64_350: "fl64 350 = 350"
  by code_simp

section \<open>Chip-select around transfers\<close>

lemma chunks_Nil: "chunks [] = []"
  by (simp add: chunks.simps)

lemma chunks_nonempty: "data \<noteq> [] \<Longrightarrow> chunks data = take 4096 data # chunks (drop 4096 data)"
  by (subst chunks.simps) simp

lemma concat_chunks: "concat (chunks data) = data"
proof (induction data rule: chunks.induct)
  case (1 data)
  show ?case
  proof (cases "data = []")
    case True
    then show ?thesis by (simp add: chunks_Nil)
  next
    case False
    with 1 show ?thesis by (simp add: chunks_nonempty)
  qed
qed

lemma write_chunks_None: "write_chunks cs None = (map WriteBytes2 cs, Inr None)"
  by (induction cs) simp_all

lemma write_chunks_returns:
  "snd (write_chunks cs b) = Inr b' \<Longrightarrow> fst (write_chunks cs b) = map WriteBytes2 cs"
proof (induction cs b rule: write_chunks.induct)
  case (1 b)
  show ?case by simp
next
  case (2 c cs)
  then show ?case by simp
next
  case (3 c cs n)
  then show ?case by simp
next
  case (4 c cs)
  then show ?case by simp
qed

lemma write_chunks_raises:
  "snd (write_chunks cs b) = Inl e \<Longrightarrow>
     e = OSError \<and>
     (\<exists>k<length cs. fst (write_chunks cs b) = map WriteBytes2 (take k cs) @ [WriteBytes2Raises (cs ! k)])"
proof (induction cs b rule: write_chunks.induct)
  case (1 b)
  then show ?case by simp
next
  case (2 c cs)
  then show ?case by auto
next
  case (3 c cs n)
  then obtain k where "e = OSError" "k < length cs"
    "fst (write_chunks cs (Some n)) = map WriteBytes2 (take k cs) @ [WriteBytes2Raises (cs ! k)]"
    by auto
  then show ?case
    by (intro conjI exI [of _ "Suc k"]) simp_all
next
  case (4 c cs)
  then show ?case by (simp add: write_chunks_None)
qed

lemma written_writes: "written (map WriteBytes2 xs @ es) = concat xs @ written es"
  by (induction xs) simp_all

lemma list_ex_writes: "list_ex is_write (map WriteBytes2 xs) \<longleftrightarrow> xs \<noteq> []"
  by (induction xs) simp_all

lemma bracketed_writes:
  "bracketed cs Selected (map WriteBytes2 xs @ [GpioOutput cs HIGH, LockRelease])"
  by (induction xs) (simp_all add: bracket_step_def)

lemma cs_held_during_writes:
  "\<not> cs_released_between cs started (map WriteBytes2 xs @ [GpioOutput cs HIGH, LockRelease])"
  by (induction xs arbitrary: started) simp_all

lemma lock_held_during_writes:
  "\<not> lock_released_between started (map WriteBytes2 xs @ [GpioOutput cs HIGH, LockRelease])"
  by (induction xs arbitrary: started) simp_all

lemma write_bytes_returns:
  assumes "snd (write_bytes cs dc dc_mode data speed b) = Inr b'"
  shows "fst (write_bytes cs dc dc_mode data speed b) =
           [LockAcquire, SetSpeed speed, GpioOutput dc (if dc_mode then HIGH else LOW),
            GpioOutput cs LOW]
           @ map WriteBytes2 (chunks data) @ [GpioOutput cs HIGH, LockRelease]"
proof -
  from assms have s: "snd (write_chunks (chunks data) b) = Inr b'"
    by (simp add: write_bytes_def Let_def)
  from write_chunks_returns [OF s] s show ?thesis
    by (simp add: write_bytes_def Let_def)
qed

lemma write_bytes_None:
  "write_bytes cs dc dc_mode data speed None =
     ([LockAcquire, SetSpeed speed, GpioOutput dc (if dc_mode then HIGH else LOW),
       GpioOutput cs LOW]
      @ map WriteBytes2 (chunks data) @ [GpioOutput cs HIGH, LockRelease], Inr None)"
  by (simp add: write_bytes_def Let_def write_chunks_None)

lemma write_bytes_bracketed:
  assumes "cs \<noteq> dc" and "snd (write_bytes cs dc dc_mode data speed b) = Inr b'"
  shows "bracketed cs Idle (fst (write_bytes cs dc dc_mode data speed b))"
    and "written (fst (write_bytes cs dc dc_mode data speed b)) = data"
    and "\<not> cs_released_between cs False (fst (write_bytes cs dc dc_mode data speed b))"
    and "\<not> lock_released_between False (fst (write_bytes cs dc dc_mode data speed b))"
proof -
  note t = write_bytes_returns [OF assms(2)]
  from assms(1) have dc: "dc \<noteq> cs" by simp
  show "bracketed cs Idle (fst (write_bytes cs dc dc_mode data speed b))"
    unfolding t using dc bracketed_writes [of cs "chunks data"] by (simp add: bracket_step_def)
  show "written (fst (write_bytes cs dc dc_mode data speed b)) = data"
    unfolding t by (simp add: written_writes concat_chunks)
  show "\<not> cs_released_between cs False (fst (write_bytes cs dc dc_mode data speed b))"
    unfolding t using cs_held_during_writes [of cs False "chunks data"] by simp
  show "\<not> lock_released_between False (fst (write_bytes cs dc dc_mode data speed b))"
    unfolding t using lock_held_during_writes [of False "chunks data" cs] by simp
qed

text \<open>When a write raises, the lock is released and chip-select stays low.\<close>

lemma write_bytes_raises:
  assumes "cs \<noteq> dc" and "snd (write_bytes cs dc dc_mode data speed b) = Inl e"
  shows "e = OSError" and "last (fst (write_bytes cs dc dc_mode data speed b)) = LockRelease"
    and "GpioOutput cs HIGH \<notin> set (fst (write_bytes cs dc dc_mode data speed b))"
    and "GpioOutput cs LOW \<in> set (fst (write_bytes cs dc dc_mode data speed b))"
proof -
  from assms(2) have s: "snd (write_chunks (chunks data) b) = Inl e"
    by (simp add: write_bytes_def Let_def)
  from write_chunks_raises [OF s] obtain k where k: "e = OSError"
    "fst (write_chunks (chunks data) b) =
       map WriteBytes2 (take k (chunks data)) @ [WriteBytes2Raises (chunks data ! k)]"
    by blast
  show "e = OSError" by fact
  show "last (fst (write_bytes cs dc dc_mode data speed b)) = LockRelease"
    by (simp add: write_bytes_def Let_def)
  show "GpioOutput cs HIGH \<notin> set (fst (write_bytes cs dc dc_mode data speed b))"
    using assms(1) s k(2) by (auto simp: write_bytes_def Let_def)
  show "GpioOutput cs LOW \<in> set (fst (write_bytes cs dc dc_mode data speed b))"
    by (simp add: write_bytes_def Let_def)
qed


lemma bracketed_append:
  "bracketed cs ph xs \<Longrightarrow> bracketed cs Idle ys \<Longrightarrow> bracketed cs ph (xs @ ys)"
  by (induction xs arbitrary: ph) (auto split: option.splits)

lemma written_append: "written (xs @ ys) = written xs @ written ys"
  by (induction xs rule: written.induct) simp_all

lemma then_run_returns:
  assumes "snd (then_run a f) = Inr b'"
  shows "\<exists>b1. snd a = Inr b1 \<and> snd (f b1) = Inr b' \<and> fst (then_run a f) = fst a @ fst (f b1)"
  using assms by (cases "snd a") (simp_all add: then_run_def)

lemma then_run_Inr: "snd a = Inr b1 \<Longrightarrow> then_run a f = (fst a @ fst (f b1), snd (f b1))"
  by (simp add: then_run_def)

lemma cmd_dat_no_payload:
  "cmd_dat cs dc c None speed b = write_bytes cs dc False [c] speed b"
  "cmd_dat cs dc c (Some []) speed b = write_bytes cs dc False [c] speed b"
  by (cases "snd (write_bytes cs dc False [c] speed b)";
      simp add: cmd_dat_def cmd_def then_run_def prod_eq_iff)+

lemma cmd_dat_two_transfers:
  assumes "d \<noteq> []" and "snd (cmd_dat cs dc c (Some d) speed b) = Inr b'"
  shows "\<exists>b1. snd (write_bytes cs dc False [c] speed b) = Inr b1 \<and>
           snd (write_bytes cs dc True d speed b1) = Inr b' \<and>
           fst (cmd_dat cs dc c (Some d) speed b) =
             fst (write_bytes cs dc False [c] speed b) @ fst (write_bytes cs dc True d speed b1)"
proof -
  from assms have "snd (then_run (write_bytes cs dc False [c] speed b)
      (\<lambda>b1. write_bytes cs dc True d speed b1)) = Inr b'"
    by (simp add: cmd_dat_def cmd_def dat_def)
  from then_run_returns [OF this] assms(1) show ?thesis
    by (simp add: cmd_dat_def cmd_def dat_def)
qed

lemma chunks_single: "chunks [c] = [[c]]"
  by (simp add: chunks_nonempty chunks_Nil)

lemma cmd_dat_releases:
  assumes "cs \<noteq> dc" and "d \<noteq> []" and "snd (cmd_dat cs dc c (Some d) speed b) = Inr b'"
  shows "bracketed cs Idle (fst (cmd_dat cs dc c (Some d) speed b))"
    and "written (fst (cmd_dat cs dc c (Some d) speed b)) = c # d"
    and "cs_released_between cs False (fst (cmd_dat cs dc c (Some d) speed b))"
    and "lock_released_between False (fst (cmd_dat cs dc c (Some d) speed b))"
proof -
  from cmd_dat_two_transfers [OF assms(2,3)] obtain b1 where
    r1: "snd (write_bytes cs dc False [c] speed b) = Inr b1" and
    r2: "snd (write_bytes cs dc True d speed b1) = Inr b'" and
    t: "fst (cmd_dat cs dc c (Some d) speed b) =
          fst (write_bytes cs dc False [c] speed b) @ fst (write_bytes cs dc True d speed b1)"
    by blast
  show "bracketed cs Idle (fst (cmd_dat cs dc c (Some d) speed b))"
    unfolding t
    using write_bytes_bracketed(1) [OF assms(1) r1] write_bytes_bracketed(1) [OF assms(1) r2]
    by (rule bracketed_append)
  show "written (fst (cmd_dat cs dc c (Some d) speed b)) = c # d"
    unfolding t written_append
    using write_bytes_bracketed(2) [OF assms(1) r1] write_bytes_bracketed(2) [OF assms(1) r2]
    by simp
  have w: "chunks d \<noteq> []"
    using assms(2) by (simp add: chunks_nonempty)
  show "cs_released_between cs False (fst (cmd_dat cs dc c (Some d) speed b))"
    unfolding t write_bytes_returns [OF r1] write_bytes_returns [OF r2]
    using w by (simp add: chunks_single list_ex_writes)
  show "lock_released_between False (fst (cmd_dat cs dc c (Some d) speed b))"
    unfolding t write_bytes_returns [OF r1] write_bytes_returns [OF r2]
    using w by (simp add: chunks_single list_ex_writes)
qed

lemma cmd_dat_None:
  assumes "d \<noteq> []"
  shows "cmd_dat cs dc c (Some d) speed None =
           (fst (write_bytes cs dc False [c] speed None) @ fst (write_bytes cs dc True d speed None),
            Inr None)"
  using assms by (simp add: cmd_dat_def cmd_def dat_def then_run_def write_bytes_None)

text \<open>
  Claim C2 says that chip-select is held from the command byte through the last payload
  byte of one command-plus-payload transfer, with no release in between and nothing
  interleaved. The first transfer of \<open>ILI9341._window\<close> for the full panel, command \<open>0x2A\<close>
  with payload \<open>0, 0, 1, 0x3F\<close>, on a transport without fault, drives chip-select high and
  gives up the lock after the command byte and before the payload.
\<close>

theorem cmd_dat_holds_chip_select_counterexample:
  "cs_released_between ILI_CS False (fst (ILI9341_c 0x2A (Some [0x00, 0x00, 0x01, 0x3F]) None)) \<and>
   lock_released_between False (fst (ILI9341_c 0x2A (Some [0x00, 0x00, 0x01, 0x3F]) None))"
proof -
  have p: "ILI_CS \<noteq> ILI_DC" by (simp add: ILI_CS_def ILI_DC_def)
  have n: "[0x00, 0x00, 0x01, 0x3F] \<noteq> ([] :: int list)" by simp
  have r: "snd (cmd_dat ILI_CS ILI_DC 0x2A (Some [0x00, 0x00, 0x01, 0x3F]) ILI9341_SPD None) = Inr None"
    by (simp add: cmd_dat_None)
  from cmd_dat_releases(3,4) [OF p n r] show ?thesis
    by (simp add: ILI9341_c_def)
qed

text \<open>
  Claim C2, amended. Every single call of \<open>_write_bytes\<close> that returns is one bracketed
  transfer: the lock is taken, the speed and the data/command line are set, chip-select is
  driven low before the first chunk, the chunks are written, they are the data in order,
  chip-select is driven high right after the last chunk and the lock is released; between
  the chunks neither chip-select nor the lock is released. On a transport without fault
  every call returns. A command without payload is one such call. A command with a payload
  that is not empty, when it returns, is two such calls, one for the command byte and one
  for the payload: chip-select and the lock are released once between them. A call in which
  a write raises gives the error of the transport: it releases the lock, and it leaves
  chip-select low.
\<close>

theorem write_bytes_holds_chip_select:
  "(cs \<noteq> dc \<and> snd (write_bytes cs dc dc_mode data speed b) = Inr b' \<longrightarrow>
      bracketed cs Idle (fst (write_bytes cs dc dc_mode data speed b)) \<and>
      written (fst (write_bytes cs dc dc_mode data speed b)) = data \<and>
      \<not> cs_released_between cs False (fst (write_bytes cs dc dc_mode data speed b)) \<and>
      \<not> lock_released_between False (fst (write_bytes cs dc dc_mode data speed b))) \<and>
   snd (write_bytes cs dc dc_mode data speed None) = Inr None \<and>
   cmd_dat cs dc c None speed b = write_bytes cs dc False [c] speed b \<and>
   cmd_dat cs dc c (Some []) speed b = write_bytes cs dc False [c] speed b \<and>
   (cs \<noteq> dc \<and> d \<noteq> [] \<and> snd (cmd_dat cs dc c (Some d) speed b) = Inr b'' \<longrightarrow>
      (\<exists>b1. snd (write_bytes cs dc False [c] speed b) = Inr b1 \<and>
         snd (write_bytes cs dc True d speed b1) = Inr b'' \<and>
         fst (cmd_dat cs dc c (Some d) speed b) =
           fst (write_bytes cs dc False [c] speed b) @ fst (write_bytes cs dc True d speed b1)) \<and>
      bracketed cs Idle (fst (cmd_dat cs dc c (Some d) speed b)) \<and>
      written (fst (cmd_dat cs dc c (Some d) speed b)) = c # d \<and>
      cs_released_between cs False (fst (cmd_dat cs dc c (Some d) speed b)) \<and>
      lock_released_between False (fst (cmd_dat cs dc c (Some d) speed b))) \<and>
   (cs \<noteq> dc \<and> snd (write_bytes cs dc dc_mode data speed b) = Inl err \<longrightarrow>
      err = OSError \<and>
      last (fst (write_bytes cs dc dc_mode data speed b)) = LockRelease \<and>
      GpioOutput cs LOW \<in> set (fst (write_bytes cs dc dc_mode data speed b)) \<and>
      GpioOutput cs HIGH \<notin> set (fst (write_bytes cs dc dc_mode data speed b)))"
proof -
  have f: "err = OSError \<and>
      last (fst (write_bytes cs dc dc_mode data speed b)) = LockRelease \<and>
      GpioOutput cs LOW \<in> set (fst (write_bytes cs dc dc_mode data speed b)) \<and>
      GpioOutput cs HIGH \<notin> set (fst (write_bytes cs dc dc_mode data speed b))"
    if "cs \<noteq> dc \<and> snd (write_bytes cs dc dc_mode data speed b) = Inl err"
    using write_bytes_raises [of cs dc dc_mode data speed b err] that by blast
  have a: "bracketed cs Idle (fst (write_bytes cs dc dc_mode data speed b)) \<and>
      written (fst (write_bytes cs dc dc_mode data speed b)) = data \<and>
      \<not> cs_released_between cs False (fst (write_bytes cs dc dc_mode data speed b)) \<and>
      \<not> lock_released_between False (fst (write_bytes cs dc dc_mode data speed b))"
    if "cs \<noteq> dc \<and> snd (write_bytes cs dc dc_mode data speed b) = Inr b'"
    using write_bytes_bracketed [of cs dc dc_mode data speed b b'] that by blast
  have n: "snd (write_bytes cs dc dc_mode data speed None) = Inr None"
    by (simp add: write_bytes_None)
  have e: "(\<exists>b1. snd (write_bytes cs dc False [c] speed b) = Inr b1 \<and>
         snd (write_bytes cs dc True d speed b1) = Inr b'' \<and>
         fst (cmd_dat cs dc c (Some d) speed b) =
           fst (write_bytes cs dc False [c] speed b) @ fst (write_bytes cs dc True d speed b1)) \<and>
      bracketed cs Idle (fst (cmd_dat cs dc c (Some d) speed b)) \<and>
      written (fst (cmd_dat cs dc c (Some d) speed b)) = c # d \<and>
      cs_released_between cs False (fst (cmd_dat cs dc c (Some d) speed b)) \<and>
      lock_released_between False (fst (cmd_dat cs dc c (Some d) speed b))"
    if "cs \<noteq> dc \<and> d \<noteq> [] \<and> snd (cmd_dat cs dc c (Some d) speed b) = Inr b''"
    using cmd_dat_two_transfers [of d cs dc c speed b b'']
      cmd_dat_releases [of cs dc d c speed b b''] that by blast
  from a n e f cmd_dat_no_payload [of cs dc c speed b] show ?thesis
    by blast
qed

theorem write_bytes_holds_chip_select_witness:
  "ILI_CS \<noteq> ILI_DC \<and> [0x00, 0x00, 0x00, 0xEF] \<noteq> ([] :: int list) \<and>
   cmd_dat ILI_CS ILI_DC 0x2B (Some [0x00, 0x00, 0x00, 0xEF]) ILI9341_SPD None =
     ([LockAcquire, SetSpeed ILI9341_SPD, GpioOutput ILI_DC LOW, GpioOutput ILI_CS LOW,
       WriteBytes2 [0x2B], GpioOutput ILI_CS HIGH, LockRelease,
       LockAcquire, SetSpeed ILI9341_SPD, GpioOutput ILI_DC HIGH, GpioOutput ILI_CS LOW,
       WriteBytes2 [0x00, 0x00, 0x00, 0xEF], GpioOutput ILI_CS HIGH, LockRelease], Inr None) \<and>
   bracketed ILI_CS Idle (fst (write_bytes ILI_CS ILI_DC True [0x00, 0x00, 0x00, 0xEF] ILI9341_SPD None)) \<and>
   written (fst (write_bytes ILI_CS ILI_DC True [0x00, 0x00, 0x00, 0xEF] ILI9341_SPD None)) =
     [0x00, 0x00, 0x00, 0xEF] \<and>
   bracketed ILI_CS Idle (fst (cmd_dat ILI_CS ILI_DC 0x2B (Some [0x00, 0x00, 0x00, 0xEF]) ILI9341_SPD None)) \<and>
   written (fst (cmd_dat ILI_CS ILI_DC 0x2B (Some [0x00, 0x00, 0x00, 0xEF]) ILI9341_SPD None)) =
     [0x2B, 0x00, 0x00, 0x00, 0xEF] \<and>
   cs_released_between ILI_CS False
     (fst (cmd_dat ILI_CS ILI_DC 0x2B (Some [0x00, 0x00, 0x00, 0xEF]) ILI9341_SPD None)) \<and>
   write_bytes ILI_CS ILI_DC False [0x2C] ILI9341_SPD (Some 0) =
     ([LockAcquire, SetSpeed ILI9341_SPD, GpioOutput ILI_DC LOW, GpioOutput ILI_CS LOW,
       WriteBytes2Raises [0x2C], LockRelease], Inl OSError) \<and>
   GpioOutput ILI_CS HIGH \<notin> set (fst (write_bytes ILI_CS ILI_DC False [0x2C] ILI9341_SPD (Some 0)))"
proof -
  have c2: "chunks [0x2C] = [[0x2C]]"
    by (simp add: chunks_nonempty chunks_Nil)
  have x: "write_bytes ILI_CS ILI_DC False [0x2C] ILI9341_SPD (Some 0) =
     ([LockAcquire, SetSpeed ILI9341_SPD, GpioOutput ILI_DC LOW, GpioOutput ILI_CS LOW,
       WriteBytes2Raises [0x2C], LockRelease], Inl OSError)"
    by (simp add: write_bytes_def c2)
  then have y: "snd (write_bytes ILI_CS ILI_DC False [0x2C] ILI9341_SPD (Some 0)) = Inl OSError"
    by simp
  have p: "ILI_CS \<noteq> ILI_DC" by (simp add: ILI_CS_def ILI_DC_def)
  have n: "[0x00, 0x00, 0x00, 0xEF] \<noteq> ([] :: int list)" by simp
  have c1: "chunks [0x2B] = [[0x2B]]" "chunks [0x00, 0x00, 0x00, 0xEF] = [[0x00, 0x00, 0x00, 0xEF]]"
    by (simp_all add: chunks_nonempty chunks_Nil)
  have w: "snd (write_bytes ILI_CS ILI_DC True [0x00, 0x00, 0x00, 0xEF] ILI9341_SPD None) = Inr None"
    by (simp add: write_bytes_None)
  have t: "cmd_dat ILI_CS ILI_DC 0x2B (Some [0x00, 0x00, 0x00, 0xEF]) ILI9341_SPD None =
     ([LockAcquire, SetSpeed ILI9341_SPD, GpioOutput ILI_DC LOW, GpioOutput ILI_CS LOW,
       WriteBytes2 [0x2B], GpioOutput ILI_CS HIGH, LockRelease,
       LockAcquire, SetSpeed ILI9341_SPD, GpioOutput ILI_DC HIGH, GpioOutput ILI_CS LOW,
       WriteBytes2 [0x00, 0x00, 0x00, 0xEF], GpioOutput ILI_CS HIGH, LockRelease], Inr None)"
    by (simp add: cmd_dat_None write_bytes_None c1)
  then have r: "snd (cmd_dat ILI_CS ILI_DC 0x2B (Some [0x00, 0x00, 0x00, 0xEF]) ILI9341_SPD None) = Inr None"
    by simp
  from write_bytes_holds_chip_select [of ILI_CS ILI_DC False "[0x2C]" ILI9341_SPD
      "Some 0" None "0x00" "[0x00]" None OSError] p y
  have g: "GpioOutput ILI_CS HIGH \<notin> set (fst (write_bytes ILI_CS ILI_DC False [0x2C] ILI9341_SPD (Some 0)))"
    by blast
  from write_bytes_holds_chip_select [of ILI_CS ILI_DC True "[0x00, 0x00, 0x00, 0xEF]" ILI9341_SPD
      None None "0x2B" "[0x00, 0x00, 0x00, 0xEF]" None OSError] p n w r t x g
  show ?thesis
    by blast
qed

section \<open>RGB565 encoding of a frame\<close>

lemma byte_range: "0 \<le> uint (w :: byte) \<and> uint w < 256"
  using uint_lt2p [of w] by simp

lemma red_field: "\<forall>r\<in>set [0..255::int].
    drop_bit 11 (push_bit 8 (r AND 0xF8)) = drop_bit 3 r \<and>
    drop_bit 5 (push_bit 8 (r AND 0xF8)) AND 0x3F = 0 \<and>
    push_bit 8 (r AND 0xF8) AND 0x1F = 0 \<and>
    0 \<le> push_bit 8 (r AND 0xF8) \<and> push_bit 8 (r AND 0xF8) < 2 ^ 16 \<and>
    0 \<le> drop_bit 8 (push_bit 8 (r AND 0xF8)) \<and> drop_bit 8 (push_bit 8 (r AND 0xF8)) < 2 ^ 8"
  by code_simp

lemma green_field: "\<forall>g\<in>set [0..255::int].
    drop_bit 11 (push_bit 3 (g AND 0xFC)) = 0 \<and>
    drop_bit 5 (push_bit 3 (g AND 0xFC)) AND 0x3F = drop_bit 2 g \<and>
    push_bit 3 (g AND 0xFC) AND 0x1F = 0 \<and>
    0 \<le> push_bit 3 (g AND 0xFC) \<and> push_bit 3 (g AND 0xFC) < 2 ^ 16 \<and>
    0 \<le> drop_bit 8 (push_bit 3 (g AND 0xFC)) \<and> drop_bit 8 (push_bit 3 (g AND 0xFC)) < 2 ^ 8"
  by code_simp

lemma blue_field: "\<forall>b\<in>set [0..255::int].
    drop_bit 11 (drop_bit 3 b) = 0 \<and>
    drop_bit 5 (drop_bit 3 b) AND 0x3F = 0 \<and>
    drop_bit 3 b AND 0x1F = drop_bit 3 b \<and>
    0 \<le> drop_bit 3 b \<and> drop_bit 3 b < 2 ^ 16 \<and>
    0 \<le> drop_bit 8 (drop_bit 3 b) \<and> drop_bit 8 (drop_bit 3 b) < 2 ^ 8"
  by code_simp

lemma and_or_distrib_int: "(x OR y OR z) AND m = (x AND m) OR (y AND m) OR (z AND (m::int))"
  by (simp add: bit.conj_disj_distrib2)

lemma rgb565_fields:
  assumes "0 \<le> r" "r < 256" "0 \<le> g" "g < 256" "0 \<le> b" "b < 256"
  shows "drop_bit 11 (rgb565 r g b) = drop_bit 3 r"
    and "drop_bit 5 (rgb565 r g b) AND 0x3F = drop_bit 2 g"
    and "rgb565 r g b AND 0x1F = drop_bit 3 b"
    and "0 \<le> rgb565 r g b" and "rgb565 r g b < 2 ^ 16"
    and "0 \<le> drop_bit 8 (rgb565 r g b)" and "drop_bit 8 (rgb565 r g b) < 2 ^ 8"
    and "0 \<le> rgb565 r g b AND 0xFF" and "rgb565 r g b AND 0xFF < 2 ^ 8"
proof -
  from assms have R: "r \<in> set [0..255]" and G: "g \<in> set [0..255]" and B: "b \<in> set [0..255]"
    by simp_all
  from red_field [rule_format, OF R]
  have r1: "drop_bit 11 (push_bit 8 (r AND 0xF8)) = drop_bit 3 r"
    and r2: "drop_bit 5 (push_bit 8 (r AND 0xF8)) AND 0x3F = 0"
    and r3: "push_bit 8 (r AND 0xF8) AND 0x1F = 0"
    and r4: "0 \<le> push_bit 8 (r AND 0xF8)" and r5: "push_bit 8 (r AND 0xF8) < 2 ^ 16"
    and r6: "0 \<le> drop_bit 8 (push_bit 8 (r AND 0xF8))"
    and r7: "drop_bit 8 (push_bit 8 (r AND 0xF8)) < 2 ^ 8"
    by blast+
  from green_field [rule_format, OF G]
  have g1: "drop_bit 11 (push_bit 3 (g AND 0xFC)) = 0"
    and g2: "drop_bit 5 (push_bit 3 (g AND 0xFC)) AND 0x3F = drop_bit 2 g"
    and g3: "push_bit 3 (g AND 0xFC) AND 0x1F = 0"
    and g4: "0 \<le> push_bit 3 (g AND 0xFC)" and g5: "push_bit 3 (g AND 0xFC) < 2 ^ 16"
    and g6: "0 \<le> drop_bit 8 (push_bit 3 (g AND 0xFC))"
    and g7: "drop_bit 8 (push_bit 3 (g AND 0xFC)) < 2 ^ 8"
    by blast+
  from blue_field [rule_format, OF B]
  have b1: "drop_bit 11 (drop_bit 3 b) = 0"
    and b2: "drop_bit 5 (drop_bit 3 b) AND 0x3F = 0"
    and b3: "drop_bit 3 b AND 0x1F = drop_bit 3 b"
    and b4: "0 \<le> drop_bit 3 b" and b5: "drop_bit 3 b < 2 ^ 16"
    and b6: "0 \<le> drop_bit 8 (drop_bit 3 b)"
    and b7: "drop_bit 8 (drop_bit 3 b) < 2 ^ 8"
    by blast+
  have or0: "x OR 0 OR 0 = x" "0 OR x OR 0 = x" "0 OR 0 OR x = x" for x :: int
    by simp_all
  show "drop_bit 11 (rgb565 r g b) = drop_bit 3 r"
    by (simp only: rgb565_def drop_bit_or r1 g1 b1 or0)
  show "drop_bit 5 (rgb565 r g b) AND 0x3F = drop_bit 2 g"
    by (simp only: rgb565_def drop_bit_or and_or_distrib_int r2 g2 b2 or0)
  show "rgb565 r g b AND 0x1F = drop_bit 3 b"
    by (simp only: rgb565_def and_or_distrib_int r3 g3 b3 or0)
  have nn1: "0 \<le> push_bit 3 (g AND 0xFC) OR drop_bit 3 b"
    using g4 b4 by (simp only: or_nonnegative_int_iff)
  show nn: "0 \<le> rgb565 r g b"
    using nn1 r4 by (simp only: rgb565_def or_nonnegative_int_iff)
  have "push_bit 3 (g AND 0xFC) OR drop_bit 3 b < 2 ^ 16"
    using g4 g5 b5 by (rule OR_upper)
  with r4 r5 show "rgb565 r g b < 2 ^ 16"
    unfolding rgb565_def by (rule OR_upper)
  show "0 \<le> drop_bit 8 (rgb565 r g b)"
    using nn by (simp only: drop_bit_nonnegative_int_iff)
  have "drop_bit 8 (push_bit 3 (g AND 0xFC)) OR drop_bit 8 (drop_bit 3 b) < 2 ^ 8"
    using g6 g7 b7 by (rule OR_upper)
  with r6 r7 show "drop_bit 8 (rgb565 r g b) < 2 ^ 8"
    unfolding rgb565_def drop_bit_or by (rule OR_upper)
  show "0 \<le> rgb565 r g b AND 0xFF"
    using nn by simp
  have "rgb565 r g b AND 0xFF \<le> 0xFF"
    by (rule AND_upper2) simp
  then show "rgb565 r g b AND 0xFF < 2 ^ 8"
    by simp
qed


lemma uint_byte_of_int: "0 \<le> v \<Longrightarrow> v < 2 ^ 8 \<Longrightarrow> uint (word_of_int v :: byte) = v"
  by (simp add: uint_word_of_int take_bit_int_eq_self)

lemma encode_pixel_ok:
  assumes "i * 3 + 2 < length raw" and "i * 2 + 1 < length buf"
  shows "encode_pixel raw i buf =
           Inr (buf[i * 2 := word_of_int (drop_bit 8
                  (rgb565 (uint (raw ! (i * 3))) (uint (raw ! (i * 3 + 1))) (uint (raw ! (i * 3 + 2))))),
                    i * 2 + 1 := word_of_int
                  (rgb565 (uint (raw ! (i * 3))) (uint (raw ! (i * 3 + 1))) (uint (raw ! (i * 3 + 2)))
                   AND 0xFF)])"
proof -
  let ?c = "rgb565 (uint (raw ! (i * 3))) (uint (raw ! (i * 3 + 1))) (uint (raw ! (i * 3 + 2)))"
  have rng: "0 \<le> drop_bit 8 ?c" "drop_bit 8 ?c < 2 ^ 8" "0 \<le> ?c AND 0xFF" "?c AND 0xFF < 2 ^ 8"
    using byte_range by (intro rgb565_fields; simp)+
  have p: "(2::int) ^ 8 = 256" by simp
  from rng [unfolded p] have r8: "\<not> (drop_bit 8 ?c < 0 \<or> 255 < drop_bit 8 ?c)"
    and rl: "\<not> (?c AND 0xFF < 0 \<or> 255 < ?c AND 0xFF)"
    by linarith+
  from assms have g: "bytes_getitem raw (i * 3) = Inr (uint (raw ! (i * 3)))"
    "bytes_getitem raw (i * 3 + 1) = Inr (uint (raw ! (i * 3 + 1)))"
    "bytes_getitem raw (i * 3 + 2) = Inr (uint (raw ! (i * 3 + 2)))"
    by (simp_all add: bytes_getitem_def)
  from assms have s1: "bytearray_setitem buf (i * 2) (drop_bit 8 ?c) =
      Inr (buf[i * 2 := word_of_int (drop_bit 8 ?c)])"
    using r8 by (simp add: bytearray_setitem_def)
  from assms have s2: "bytearray_setitem (buf[i * 2 := word_of_int (drop_bit 8 ?c)]) (i * 2 + 1) (?c AND 0xFF) =
      Inr (buf[i * 2 := word_of_int (drop_bit 8 ?c), i * 2 + 1 := word_of_int (?c AND 0xFF)])"
    using rl by (simp add: bytearray_setitem_def)
  show ?thesis
    by (simp only: encode_pixel_def g and_then_def sum.case Let_def s1 s2)
qed

lemma encode_loop_upt:
  assumes "k \<le> n" and "n * 3 \<le> length raw" and "n * 2 \<le> length buf"
  shows "\<exists>buf'. encode_loop raw [k..<n] buf = Inr buf' \<and> length buf' = length buf \<and>
           (\<forall>j<k * 2. buf' ! j = buf ! j) \<and>
           (\<forall>i. k \<le> i \<and> i < n \<longrightarrow>
              buf' ! (i * 2) = word_of_int (drop_bit 8
                  (rgb565 (uint (raw ! (i * 3))) (uint (raw ! (i * 3 + 1))) (uint (raw ! (i * 3 + 2))))) \<and>
              buf' ! (i * 2 + 1) = word_of_int
                  (rgb565 (uint (raw ! (i * 3))) (uint (raw ! (i * 3 + 1))) (uint (raw ! (i * 3 + 2)))
                   AND 0xFF))"
  using assms
proof (induction "n - k" arbitrary: k buf)
  case 0
  then have e: "encode_loop raw [k..<n] buf = Inr buf" by simp
  from 0 have "\<not> (k \<le> i \<and> i < n)" for i by simp
  with e show ?case by blast
next
  case (Suc d)
  let ?hi = "\<lambda>i. (word_of_int (drop_bit 8
                  (rgb565 (uint (raw ! (i * 3))) (uint (raw ! (i * 3 + 1))) (uint (raw ! (i * 3 + 2))))) :: byte)"
  let ?lo = "\<lambda>i. (word_of_int
                  (rgb565 (uint (raw ! (i * 3))) (uint (raw ! (i * 3 + 1))) (uint (raw ! (i * 3 + 2)))
                   AND 0xFF) :: byte)"
  from Suc.hyps(2) have kn: "k < n" by simp
  then have upt: "[k..<n] = k # [Suc k..<n]" by (simp add: upt_conv_Cons)
  let ?buf1 = "buf[k * 2 := ?hi k, k * 2 + 1 := ?lo k]"
  from kn Suc.prems have ir: "k * 3 + 2 < length raw" and ib: "k * 2 + 1 < length buf"
    by simp_all
  have step: "encode_pixel raw k buf = Inr ?buf1"
    using ir ib by (rule encode_pixel_ok)
  have d: "d = n - Suc k" using Suc.hyps(2) by simp
  have "Suc k \<le> n" using kn by simp
  moreover have "n * 2 \<le> length ?buf1" using Suc.prems by simp
  ultimately obtain buf' where b: "encode_loop raw [Suc k..<n] ?buf1 = Inr buf'"
    "length buf' = length ?buf1"
    "\<forall>j<Suc k * 2. buf' ! j = ?buf1 ! j"
    "\<forall>i. Suc k \<le> i \<and> i < n \<longrightarrow> buf' ! (i * 2) = ?hi i \<and> buf' ! (i * 2 + 1) = ?lo i"
    using Suc.hyps(1) [OF d _ Suc.prems(2)] by blast
  have run: "encode_loop raw [k..<n] buf = Inr buf'"
    by (simp only: upt encode_loop.simps step and_then_def sum.case b(1))
  have len: "length buf' = length buf" using b(2) by simp
  have old: "\<forall>j<k * 2. buf' ! j = buf ! j"
  proof (intro allI impI)
    fix j assume j: "j < k * 2"
    then have "buf' ! j = ?buf1 ! j" using b(3) by simp
    also have "\<dots> = buf ! j" using j by simp
    finally show "buf' ! j = buf ! j" .
  qed
  have atk: "buf' ! (k * 2) = ?hi k \<and> buf' ! (k * 2 + 1) = ?lo k"
  proof
    have "buf' ! (k * 2) = ?buf1 ! (k * 2)" using b(3) by simp
    also have "\<dots> = ?hi k" using ib by simp
    finally show "buf' ! (k * 2) = ?hi k" .
    have "buf' ! (k * 2 + 1) = ?buf1 ! (k * 2 + 1)" using b(3) by simp
    also have "\<dots> = ?lo k" using ib by simp
    finally show "buf' ! (k * 2 + 1) = ?lo k" .
  qed
  have new: "\<forall>i. k \<le> i \<and> i < n \<longrightarrow> buf' ! (i * 2) = ?hi i \<and> buf' ! (i * 2 + 1) = ?lo i"
  proof (intro allI impI)
    fix i assume i: "k \<le> i \<and> i < n"
    show "buf' ! (i * 2) = ?hi i \<and> buf' ! (i * 2 + 1) = ?lo i"
    proof (cases "i = k")
      case True
      with atk show ?thesis by simp
    next
      case False
      with i have "Suc k \<le> i \<and> i < n" by simp
      with b(4) show ?thesis by blast
    qed
  qed
  from run len old new show ?case by blast
qed


lemma encode_frame_returns:
  assumes "length raw = W * H * 3"
  shows "\<exists>buf. encode_frame W H raw = Inr buf \<and> length buf = W * H * 2"
proof -
  have "\<exists>buf'. encode_loop raw [0..<W * H] (replicate (W * H * 2) 0) = Inr buf' \<and>
          length buf' = length (replicate (W * H * 2) (0::byte)) \<and>
          (\<forall>j<0 * 2. buf' ! j = replicate (W * H * 2) 0 ! j) \<and>
          (\<forall>i. 0 \<le> i \<and> i < W * H \<longrightarrow>
             buf' ! (i * 2) = word_of_int (drop_bit 8
               (rgb565 (uint (raw ! (i * 3))) (uint (raw ! (i * 3 + 1))) (uint (raw ! (i * 3 + 2))))) \<and>
             buf' ! (i * 2 + 1) = word_of_int
               (rgb565 (uint (raw ! (i * 3))) (uint (raw ! (i * 3 + 1))) (uint (raw ! (i * 3 + 2)))
                AND 0xFF))"
    using assms by (intro encode_loop_upt) simp_all
  then show ?thesis
    unfolding encode_frame_def by auto
qed

lemma high_low_bytes: "drop_bit 8 c * 256 + (c AND 0xFF) = (c::int)"
proof -
  have "c AND 0xFF = take_bit 8 c"
    by (simp add: take_bit_eq_mask mask_eq_exp_minus_1)
  then show ?thesis
    using bits_ident [of 8 c] by (simp add: push_bit_eq_mult)
qed

lemma cmd_dat_returns:
  assumes "cs \<noteq> dc" and "snd (cmd_dat cs dc c data speed b) = Inr b'"
  shows "written (fst (cmd_dat cs dc c data speed b)) = c # (case data of None \<Rightarrow> [] | Some d \<Rightarrow> d)"
    and "bracketed cs Idle (fst (cmd_dat cs dc c data speed b))"
proof -
  have "written (fst (cmd_dat cs dc c data speed b)) = c # (case data of None \<Rightarrow> [] | Some d \<Rightarrow> d) \<and>
      bracketed cs Idle (fst (cmd_dat cs dc c data speed b))"
  proof (cases "data = None \<or> data = Some []")
    case True
    then have e: "cmd_dat cs dc c data speed b = write_bytes cs dc False [c] speed b"
      using cmd_dat_no_payload [of cs dc c speed b] by auto
    with assms(2) have r: "snd (write_bytes cs dc False [c] speed b) = Inr b'" by simp
    from write_bytes_bracketed(1,2) [OF assms(1) r] True show ?thesis
      unfolding e by auto
  next
    case False
    then obtain d where d: "data = Some d" "d \<noteq> []" by (cases data) auto
    from cmd_dat_releases(1,2) [OF assms(1) d(2) assms(2) [unfolded d(1)]] show ?thesis
      by (simp add: d(1))
  qed
  then show "written (fst (cmd_dat cs dc c data speed b)) = c # (case data of None \<Rightarrow> [] | Some d \<Rightarrow> d)"
    and "bracketed cs Idle (fst (cmd_dat cs dc c data speed b))"
    by simp_all
qed

lemma cmd_dat_no_fault: "snd (cmd_dat cs dc c data speed None) = Inr None"
proof (cases "data = None \<or> data = Some []")
  case True
  then show ?thesis
    using cmd_dat_no_payload [of cs dc c speed None] by (auto simp: write_bytes_None)
next
  case False
  then obtain d where "data = Some d" "d \<noteq> []" by (cases data) auto
  then show ?thesis by (simp add: cmd_dat_None)
qed

lemma pins_differ: "ILI_CS \<noteq> ILI_DC" "ST_CS \<noteq> ST_DC"
  by (simp_all add: ILI_CS_def ILI_DC_def ST_CS_def ST_DC_def)

lemma ILI9341_window_returns:
  assumes "snd (ILI9341_window x0 y0 x1 y1 b) = Inr b'"
  shows "written (fst (ILI9341_window x0 y0 x1 y1 b)) =
           [0x2A, drop_bit 8 x0, x0 AND 0xFF, drop_bit 8 x1, x1 AND 0xFF,
            0x2B, drop_bit 8 y0, y0 AND 0xFF, drop_bit 8 y1, y1 AND 0xFF, 0x2C]"
    and "bracketed ILI_CS Idle (fst (ILI9341_window x0 y0 x1 y1 b))"
proof -
  let ?xs = "Some [drop_bit 8 x0, x0 AND 0xFF, drop_bit 8 x1, x1 AND 0xFF]"
  let ?ys = "Some [drop_bit 8 y0, y0 AND 0xFF, drop_bit 8 y1, y1 AND 0xFF]"
  let ?rest = "\<lambda>b1. then_run (ILI9341_c 0x2B ?ys b1) (\<lambda>b2. ILI9341_c 0x2C None b2)"
  from assms have "snd (then_run (ILI9341_c 0x2A ?xs b) ?rest) = Inr b'"
    by (simp add: ILI9341_window_def)
  from then_run_returns [OF this] obtain b1 where
    r1: "snd (ILI9341_c 0x2A ?xs b) = Inr b1" and s1: "snd (?rest b1) = Inr b'" and
    t1: "fst (then_run (ILI9341_c 0x2A ?xs b) ?rest) = fst (ILI9341_c 0x2A ?xs b) @ fst (?rest b1)"
    by blast
  from then_run_returns [OF s1] obtain b2 where
    r2: "snd (ILI9341_c 0x2B ?ys b1) = Inr b2" and r3: "snd (ILI9341_c 0x2C None b2) = Inr b'" and
    t2: "fst (?rest b1) = fst (ILI9341_c 0x2B ?ys b1) @ fst (ILI9341_c 0x2C None b2)"
    by blast
  have t: "fst (ILI9341_window x0 y0 x1 y1 b) =
      fst (ILI9341_c 0x2A ?xs b) @ fst (ILI9341_c 0x2B ?ys b1) @ fst (ILI9341_c 0x2C None b2)"
    using t1 t2 by (simp add: ILI9341_window_def)
  note c1 = cmd_dat_returns [OF pins_differ(1) r1 [unfolded ILI9341_c_def]]
  note c2 = cmd_dat_returns [OF pins_differ(1) r2 [unfolded ILI9341_c_def]]
  note c3 = cmd_dat_returns [OF pins_differ(1) r3 [unfolded ILI9341_c_def]]
  show "written (fst (ILI9341_window x0 y0 x1 y1 b)) =
           [0x2A, drop_bit 8 x0, x0 AND 0xFF, drop_bit 8 x1, x1 AND 0xFF,
            0x2B, drop_bit 8 y0, y0 AND 0xFF, drop_bit 8 y1, y1 AND 0xFF, 0x2C]"
    unfolding t written_append ILI9341_c_def c1(1) c2(1) c3(1) by simp
  show "bracketed ILI_CS Idle (fst (ILI9341_window x0 y0 x1 y1 b))"
    unfolding t ILI9341_c_def
    by (intro bracketed_append c1(2) c2(2) c3(2))
qed

lemma ILI9341_window_no_fault: "snd (ILI9341_window x0 y0 x1 y1 None) = Inr None"
  by (simp add: ILI9341_window_def ILI9341_c_def then_run_def cmd_dat_no_fault)

lemma ST7735_window_returns:
  assumes "snd (ST7735_window x0 y0 x1 y1 b) = Inr b'"
  shows "written (fst (ST7735_window x0 y0 x1 y1 b)) =
           [0x2A, 0x00, x0, 0x00, x1, 0x2B, 0x00, y0, 0x00, y1, 0x2C]"
    and "bracketed ST_CS Idle (fst (ST7735_window x0 y0 x1 y1 b))"
proof -
  let ?xs = "Some [0x00, x0, 0x00, x1]"
  let ?ys = "Some [0x00, y0, 0x00, y1]"
  let ?rest = "\<lambda>b1. then_run (ST7735_c 0x2B ?ys b1) (\<lambda>b2. ST7735_c 0x2C None b2)"
  from assms have "snd (then_run (ST7735_c 0x2A ?xs b) ?rest) = Inr b'"
    by (simp add: ST7735_window_def)
  from then_run_returns [OF this] obtain b1 where
    r1: "snd (ST7735_c 0x2A ?xs b) = Inr b1" and s1: "snd (?rest b1) = Inr b'" and
    t1: "fst (then_run (ST7735_c 0x2A ?xs b) ?rest) = fst (ST7735_c 0x2A ?xs b) @ fst (?rest b1)"
    by blast
  from then_run_returns [OF s1] obtain b2 where
    r2: "snd (ST7735_c 0x2B ?ys b1) = Inr b2" and r3: "snd (ST7735_c 0x2C None b2) = Inr b'" and
    t2: "fst (?rest b1) = fst (ST7735_c 0x2B ?ys b1) @ fst (ST7735_c 0x2C None b2)"
    by blast
  have t: "fst (ST7735_window x0 y0 x1 y1 b) =
      fst (ST7735_c 0x2A ?xs b) @ fst (ST7735_c 0x2B ?ys b1) @ fst (ST7735_c 0x2C None b2)"
    using t1 t2 by (simp add: ST7735_window_def)
  note c1 = cmd_dat_returns [OF pins_differ(2) r1 [unfolded ST7735_c_def]]
  note c2 = cmd_dat_returns [OF pins_differ(2) r2 [unfolded ST7735_c_def]]
  note c3 = cmd_dat_returns [OF pins_differ(2) r3 [unfolded ST7735_c_def]]
  show "written (fst (ST7735_window x0 y0 x1 y1 b)) =
           [0x2A, 0x00, x0, 0x00, x1, 0x2B, 0x00, y0, 0x00, y1, 0x2C]"
    unfolding t written_append ST7735_c_def c1(1) c2(1) c3(1) by simp
  show "bracketed ST_CS Idle (fst (ST7735_window x0 y0 x1 y1 b))"
    unfolding t ST7735_c_def
    by (intro bracketed_append c1(2) c2(2) c3(2))
qed

lemma ST7735_window_no_fault: "snd (ST7735_window x0 y0 x1 y1 None) = Inr None"
  by (simp add: ST7735_window_def ST7735_c_def then_run_def cmd_dat_no_fault)

lemma ILI9341_image_sends_buffer:
  assumes "encode_frame ILI9341_W ILI9341_H raw = Inr buf"
  shows "snd (ILI9341_image raw None) = Inr None"
    and "snd (ILI9341_image raw b) = Inr b' \<Longrightarrow>
           written (fst (ILI9341_image raw b)) =
             [0x2A, 0x00, 0x00, 0x01, 0x3F, 0x2B, 0x00, 0x00, 0x00, 0xEF, 0x2C] @ map uint buf \<and>
           bracketed ILI_CS Idle (fst (ILI9341_image raw b))"
proof -
  let ?w = "\<lambda>b. ILI9341_window 0 0 (int ILI9341_W - 1) (int ILI9341_H - 1) b"
  let ?d = "\<lambda>b. dat ILI_CS ILI_DC (map uint buf) ILI9341_SPD b"
  have i: "ILI9341_image raw b = then_run (?w b) ?d" for b
    using assms by (simp add: ILI9341_image_def)
  show "snd (ILI9341_image raw None) = Inr None"
    unfolding i by (simp add: then_run_def ILI9341_window_no_fault dat_def write_bytes_None)
  assume "snd (ILI9341_image raw b) = Inr b'"
  then have "snd (then_run (?w b) ?d) = Inr b'" by (simp only: i)
  from then_run_returns [OF this] obtain b1 where
    r1: "snd (?w b) = Inr b1" and r2: "snd (?d b1) = Inr b'" and
    t: "fst (then_run (?w b) ?d) = fst (?w b) @ fst (?d b1)"
    by blast
  note w = ILI9341_window_returns [OF r1]
  note d = write_bytes_bracketed(1,2) [OF pins_differ(1) r2 [unfolded dat_def]]
  have "written (fst (ILI9341_image raw b)) =
      [0x2A, 0x00, 0x00, 0x01, 0x3F, 0x2B, 0x00, 0x00, 0x00, 0xEF, 0x2C] @ map uint buf"
    unfolding i t written_append w(1) dat_def d(2) by (simp add: ILI9341_W_def ILI9341_H_def)
  moreover have "bracketed ILI_CS Idle (fst (ILI9341_image raw b))"
    unfolding i t dat_def by (intro bracketed_append w(2) d(1))
  ultimately show "written (fst (ILI9341_image raw b)) =
             [0x2A, 0x00, 0x00, 0x01, 0x3F, 0x2B, 0x00, 0x00, 0x00, 0xEF, 0x2C] @ map uint buf \<and>
           bracketed ILI_CS Idle (fst (ILI9341_image raw b))"
    by simp
qed

lemma ST7735_image_sends_buffer:
  assumes "encode_frame ST7735_W ST7735_H raw = Inr buf"
  shows "snd (ST7735_image raw None) = Inr None"
    and "snd (ST7735_image raw b) = Inr b' \<Longrightarrow>
           written (fst (ST7735_image raw b)) =
             [0x2A, 0x00, 0x00, 0x00, 0x9F, 0x2B, 0x00, 0x00, 0x00, 0x7F, 0x2C] @ map uint buf \<and>
           bracketed ST_CS Idle (fst (ST7735_image raw b))"
proof -
  let ?w = "\<lambda>b. ST7735_window 0 0 (int ST7735_W - 1) (int ST7735_H - 1) b"
  let ?d = "\<lambda>b. dat ST_CS ST_DC (map uint buf) ST7735_SPD b"
  have i: "ST7735_image raw b = then_run (?w b) ?d" for b
    using assms by (simp add: ST7735_image_def)
  show "snd (ST7735_image raw None) = Inr None"
    unfolding i by (simp add: then_run_def ST7735_window_no_fault dat_def write_bytes_None)
  assume "snd (ST7735_image raw b) = Inr b'"
  then have "snd (then_run (?w b) ?d) = Inr b'" by (simp only: i)
  from then_run_returns [OF this] obtain b1 where
    r1: "snd (?w b) = Inr b1" and r2: "snd (?d b1) = Inr b'" and
    t: "fst (then_run (?w b) ?d) = fst (?w b) @ fst (?d b1)"
    by blast
  note w = ST7735_window_returns [OF r1]
  note d = write_bytes_bracketed(1,2) [OF pins_differ(2) r2 [unfolded dat_def]]
  have "written (fst (ST7735_image raw b)) =
      [0x2A, 0x00, 0x00, 0x00, 0x9F, 0x2B, 0x00, 0x00, 0x00, 0x7F, 0x2C] @ map uint buf"
    unfolding i t written_append w(1) dat_def d(2) by (simp add: ST7735_W_def ST7735_H_def)
  moreover have "bracketed ST_CS Idle (fst (ST7735_image raw b))"
    unfolding i t dat_def by (intro bracketed_append w(2) d(1))
  ultimately show "written (fst (ST7735_image raw b)) =
             [0x2A, 0x00, 0x00, 0x00, 0x9F, 0x2B, 0x00, 0x00, 0x00, 0x7F, 0x2C] @ map uint buf \<and>
           bracketed ST_CS Idle (fst (ST7735_image raw b))"
    by simp
qed


lemma encode_frame_bytes:
  assumes "length raw = W * H * 3"
  shows "\<exists>buf. encode_frame W H raw = Inr buf \<and> length buf = W * H * 2 \<and>
           (\<forall>i<W * H. \<forall>c.
              c = rgb565 (uint (raw ! (i * 3))) (uint (raw ! (i * 3 + 1))) (uint (raw ! (i * 3 + 2))) \<longrightarrow>
              uint (buf ! (i * 2)) = drop_bit 8 c \<and>
              uint (buf ! (i * 2 + 1)) = c AND 0xFF \<and>
              uint (buf ! (i * 2)) * 256 + uint (buf ! (i * 2 + 1)) = c)"
proof -
  let ?n = "W * H"
  let ?c = "\<lambda>i. rgb565 (uint (raw ! (i * 3))) (uint (raw ! (i * 3 + 1))) (uint (raw ! (i * 3 + 2)))"
  have "\<exists>buf'. encode_loop raw [0..<?n] (replicate (?n * 2) 0) = Inr buf' \<and>
          length buf' = length (replicate (?n * 2) (0::byte)) \<and>
          (\<forall>j<0 * 2. buf' ! j = replicate (?n * 2) 0 ! j) \<and>
          (\<forall>i. 0 \<le> i \<and> i < ?n \<longrightarrow>
             buf' ! (i * 2) = word_of_int (drop_bit 8 (?c i)) \<and>
             buf' ! (i * 2 + 1) = word_of_int (?c i AND 0xFF))"
    using assms by (intro encode_loop_upt) simp_all
  then obtain buf where buf: "encode_frame W H raw = Inr buf" "length buf = ?n * 2"
    and px: "\<And>i. i < ?n \<Longrightarrow> buf ! (i * 2) = word_of_int (drop_bit 8 (?c i)) \<and>
             buf ! (i * 2 + 1) = word_of_int (?c i AND 0xFF)"
    unfolding encode_frame_def by auto
  have bytes: "uint (buf ! (i * 2)) = drop_bit 8 (?c i) \<and>
        uint (buf ! (i * 2 + 1)) = ?c i AND 0xFF \<and>
        uint (buf ! (i * 2)) * 256 + uint (buf ! (i * 2 + 1)) = ?c i" if "i < ?n" for i
  proof -
    have rng: "0 \<le> drop_bit 8 (?c i)" "drop_bit 8 (?c i) < 2 ^ 8"
      "0 \<le> ?c i AND 0xFF" "?c i AND 0xFF < 2 ^ 8"
      using byte_range by (intro rgb565_fields; simp)+
    have h: "uint (buf ! (i * 2)) = drop_bit 8 (?c i)"
      using px [OF that] uint_byte_of_int [OF rng(1,2)] by simp
    have l: "uint (buf ! (i * 2 + 1)) = ?c i AND 0xFF"
      using px [OF that] uint_byte_of_int [OF rng(3,4)] by simp
    from h l high_low_bytes [of "?c i"] show ?thesis by simp
  qed
  from buf bytes show ?thesis by blast
qed

lemma sent_bytes:
  assumes w: "written tr = pre @ map uint buf" and p: "length pre = 11"
    and l: "length buf = n * 2"
    and px: "\<forall>i<n. \<forall>c. c = f i \<longrightarrow>
              uint (buf ! (i * 2)) = drop_bit 8 c \<and> uint (buf ! (i * 2 + 1)) = c AND 0xFF \<and>
              uint (buf ! (i * 2)) * 256 + uint (buf ! (i * 2 + 1)) = c"
  shows "length (written tr) = 11 + n * 2 \<and> take 11 (written tr) = pre \<and>
         (\<forall>i<n. \<forall>c. c = f i \<longrightarrow>
            written tr ! (11 + i * 2) = drop_bit 8 c \<and>
            written tr ! (11 + i * 2 + 1) = c AND 0xFF)"
proof (intro conjI allI impI)
  show "length (written tr) = 11 + n * 2" by (simp add: w p l)
  show "take 11 (written tr) = pre" by (simp add: w p)
next
  fix i c
  assume i: "i < n" and c: "c = f i"
  from i l have a: "i * 2 < length buf" "i * 2 + 1 < length buf" by simp_all
  have "written tr ! (11 + i * 2) = map uint buf ! (i * 2)"
    unfolding w using nth_append_length_plus [of pre "map uint buf" "i * 2"] p by simp
  with a px i c show "written tr ! (11 + i * 2) = drop_bit 8 c" by simp
  have "written tr ! (11 + i * 2 + 1) = map uint buf ! (i * 2 + 1)"
    unfolding w using nth_append_length_plus [of pre "map uint buf" "i * 2 + 1"] p
    by (simp add: add.assoc)
  with a px i c show "written tr ! (11 + i * 2 + 1) = c AND 0xFF" by simp
qed

lemma ILI9341_image_sends_pixels:
  assumes "length raw = ILI9341_W * ILI9341_H * 3"
  shows "snd (ILI9341_image raw None) = Inr None"
    and "snd (ILI9341_image raw b) = Inr b' \<Longrightarrow>
          length (written (fst (ILI9341_image raw b))) = 11 + ILI9341_W * ILI9341_H * 2 \<and>
          take 11 (written (fst (ILI9341_image raw b))) =
            [0x2A, 0x00, 0x00, 0x01, 0x3F, 0x2B, 0x00, 0x00, 0x00, 0xEF, 0x2C] \<and>
          (\<forall>i<ILI9341_W * ILI9341_H. \<forall>c.
             c = rgb565 (uint (raw ! (i * 3))) (uint (raw ! (i * 3 + 1))) (uint (raw ! (i * 3 + 2))) \<longrightarrow>
             written (fst (ILI9341_image raw b)) ! (11 + i * 2) = drop_bit 8 c \<and>
             written (fst (ILI9341_image raw b)) ! (11 + i * 2 + 1) = c AND 0xFF)"
proof -
  from encode_frame_bytes [OF assms] obtain buf where
    e: "encode_frame ILI9341_W ILI9341_H raw = Inr buf" and l: "length buf = ILI9341_W * ILI9341_H * 2" and
    px: "\<forall>i<ILI9341_W * ILI9341_H. \<forall>c.
           c = rgb565 (uint (raw ! (i * 3))) (uint (raw ! (i * 3 + 1))) (uint (raw ! (i * 3 + 2))) \<longrightarrow>
           uint (buf ! (i * 2)) = drop_bit 8 c \<and> uint (buf ! (i * 2 + 1)) = c AND 0xFF \<and>
           uint (buf ! (i * 2)) * 256 + uint (buf ! (i * 2 + 1)) = c"
    by blast
  show "snd (ILI9341_image raw None) = Inr None"
    using e by (rule ILI9341_image_sends_buffer(1))
  assume "snd (ILI9341_image raw b) = Inr b'"
  from ILI9341_image_sends_buffer(2) [OF e this]
  have w: "written (fst (ILI9341_image raw b)) =
      [0x2A, 0x00, 0x00, 0x01, 0x3F, 0x2B, 0x00, 0x00, 0x00, 0xEF, 0x2C] @ map uint buf"
    by simp
  show "length (written (fst (ILI9341_image raw b))) = 11 + ILI9341_W * ILI9341_H * 2 \<and>
          take 11 (written (fst (ILI9341_image raw b))) =
            [0x2A, 0x00, 0x00, 0x01, 0x3F, 0x2B, 0x00, 0x00, 0x00, 0xEF, 0x2C] \<and>
          (\<forall>i<ILI9341_W * ILI9341_H. \<forall>c.
             c = rgb565 (uint (raw ! (i * 3))) (uint (raw ! (i * 3 + 1))) (uint (raw ! (i * 3 + 2))) \<longrightarrow>
             written (fst (ILI9341_image raw b)) ! (11 + i * 2) = drop_bit 8 c \<and>
             written (fst (ILI9341_image raw b)) ! (11 + i * 2 + 1) = c AND 0xFF)"
    using w _ l px by (rule sent_bytes) simp
qed

lemma ST7735_image_sends_pixels:
  assumes "length raw = ST7735_W * ST7735_H * 3"
  shows "snd (ST7735_image raw None) = Inr None"
    and "snd (ST7735_image raw b) = Inr b' \<Longrightarrow>
          length (written (fst (ST7735_image raw b))) = 11 + ST7735_W * ST7735_H * 2 \<and>
          take 11 (written (fst (ST7735_image raw b))) =
            [0x2A, 0x00, 0x00, 0x00, 0x9F, 0x2B, 0x00, 0x00, 0x00, 0x7F, 0x2C] \<and>
          (\<forall>i<ST7735_W * ST7735_H. \<forall>c.
             c = rgb565 (uint (raw ! (i * 3))) (uint (raw ! (i * 3 + 1))) (uint (raw ! (i * 3 + 2))) \<longrightarrow>
             written (fst (ST7735_image raw b)) ! (11 + i * 2) = drop_bit 8 c \<and>
             written (fst (ST7735_image raw b)) ! (11 + i * 2 + 1) = c AND 0xFF)"
proof -
  from encode_frame_bytes [OF assms] obtain buf where
    e: "encode_frame ST7735_W ST7735_H raw = Inr buf" and l: "length buf = ST7735_W * ST7735_H * 2" and
    px: "\<forall>i<ST7735_W * ST7735_H. \<forall>c.
           c = rgb565 (uint (raw ! (i * 3))) (uint (raw ! (i * 3 + 1))) (uint (raw ! (i * 3 + 2))) \<longrightarrow>
           uint (buf ! (i * 2)) = drop_bit 8 c \<and> uint (buf ! (i * 2 + 1)) = c AND 0xFF \<and>
           uint (buf ! (i * 2)) * 256 + uint (buf ! (i * 2 + 1)) = c"
    by blast
  show "snd (ST7735_image raw None) = Inr None"
    using e by (rule ST7735_image_sends_buffer(1))
  assume "snd (ST7735_image raw b) = Inr b'"
  from ST7735_image_sends_buffer(2) [OF e this]
  have w: "written (fst (ST7735_image raw b)) =
      [0x2A, 0x00, 0x00, 0x00, 0x9F, 0x2B, 0x00, 0x00, 0x00, 0x7F, 0x2C] @ map uint buf"
    by simp
  show "length (written (fst (ST7735_image raw b))) = 11 + ST7735_W * ST7735_H * 2 \<and>
          take 11 (written (fst (ST7735_image raw b))) =
            [0x2A, 0x00, 0x00, 0x00, 0x9F, 0x2B, 0x00, 0x00, 0x00, 0x7F, 0x2C] \<and>
          (\<forall>i<ST7735_W * ST7735_H. \<forall>c.
             c = rgb565 (uint (raw ! (i * 3))) (uint (raw ! (i * 3 + 1))) (uint (raw ! (i * 3 + 2))) \<longrightarrow>
             written (fst (ST7735_image raw b)) ! (11 + i * 2) = drop_bit 8 c \<and>
             written (fst (ST7735_image raw b)) ! (11 + i * 2 + 1) = c AND 0xFF)"
    using w _ l px by (rule sent_bytes) simp
qed

text \<open>
  Claim C1. For a frame of the panel's size, \<open>image\<close> of either driver returns on a
  transport without fault, and whenever it returns it has sent, after the eleven bytes that
  set the window and begin the write, two bytes for each pixel \<open>i\<close>: the high byte of the
  16-bit value \<open>rgb565 r g b\<close> as byte \<open>2 * i\<close> of the pixel data and its low byte as byte
  \<open>2 * i + 1\<close>. The loop fills the packed buffer in this way for every width and height.
  Pure red, green and blue encode to \<open>0xF800\<close>, \<open>0x07E0\<close> and \<open>0x001F\<close>. For every RGB triple
  the code is a 16-bit value whose bits 15..11 are the top 5 bits of red, bits 10..5 the top
  6 bits of green and bits 4..0 the top 5 bits of blue.
\<close>

theorem image_encodes_rgb565:
  fixes r g b :: byte
  shows
  "(length raw = ILI9341_W * ILI9341_H * 3 \<longrightarrow>
      snd (ILI9341_image raw None) = Inr None \<and>
      (\<forall>bus bus'. snd (ILI9341_image raw bus) = Inr bus' \<longrightarrow>
         length (written (fst (ILI9341_image raw bus))) = 11 + ILI9341_W * ILI9341_H * 2 \<and>
         take 11 (written (fst (ILI9341_image raw bus))) =
           [0x2A, 0x00, 0x00, 0x01, 0x3F, 0x2B, 0x00, 0x00, 0x00, 0xEF, 0x2C] \<and>
         (\<forall>i<ILI9341_W * ILI9341_H. \<forall>c.
            c = rgb565 (uint (raw ! (i * 3))) (uint (raw ! (i * 3 + 1))) (uint (raw ! (i * 3 + 2))) \<longrightarrow>
            written (fst (ILI9341_image raw bus)) ! (11 + i * 2) = drop_bit 8 c \<and>
            written (fst (ILI9341_image raw bus)) ! (11 + i * 2 + 1) = c AND 0xFF))) \<and>
   (length raw = ST7735_W * ST7735_H * 3 \<longrightarrow>
      snd (ST7735_image raw None) = Inr None \<and>
      (\<forall>bus bus'. snd (ST7735_image raw bus) = Inr bus' \<longrightarrow>
         length (written (fst (ST7735_image raw bus))) = 11 + ST7735_W * ST7735_H * 2 \<and>
         take 11 (written (fst (ST7735_image raw bus))) =
           [0x2A, 0x00, 0x00, 0x00, 0x9F, 0x2B, 0x00, 0x00, 0x00, 0x7F, 0x2C] \<and>
         (\<forall>i<ST7735_W * ST7735_H. \<forall>c.
            c = rgb565 (uint (raw ! (i * 3))) (uint (raw ! (i * 3 + 1))) (uint (raw ! (i * 3 + 2))) \<longrightarrow>
            written (fst (ST7735_image raw bus)) ! (11 + i * 2) = drop_bit 8 c \<and>
            written (fst (ST7735_image raw bus)) ! (11 + i * 2 + 1) = c AND 0xFF))) \<and>
   (length raw = W * H * 3 \<longrightarrow>
      (\<exists>buf. encode_frame W H raw = Inr buf \<and> length buf = W * H * 2 \<and>
         (\<forall>i<W * H. \<forall>c.
            c = rgb565 (uint (raw ! (i * 3))) (uint (raw ! (i * 3 + 1))) (uint (raw ! (i * 3 + 2))) \<longrightarrow>
            uint (buf ! (i * 2)) = drop_bit 8 c \<and>
            uint (buf ! (i * 2 + 1)) = c AND 0xFF \<and>
            uint (buf ! (i * 2)) * 256 + uint (buf ! (i * 2 + 1)) = c))) \<and>
   rgb565 255 0 0 = 0xF800 \<and> rgb565 0 255 0 = 0x07E0 \<and> rgb565 0 0 255 = 0x001F \<and>
   0 \<le> rgb565 (uint r) (uint g) (uint b) \<and> rgb565 (uint r) (uint g) (uint b) < 2 ^ 16 \<and>
   drop_bit 11 (rgb565 (uint r) (uint g) (uint b)) = drop_bit 3 (uint r) \<and>
   drop_bit 5 (rgb565 (uint r) (uint g) (uint b)) AND 0x3F = drop_bit 2 (uint g) \<and>
   rgb565 (uint r) (uint g) (uint b) AND 0x1F = drop_bit 3 (uint b)"
proof -
  have ili: "snd (ILI9341_image raw None) = Inr None \<and>
      (\<forall>bus bus'. snd (ILI9341_image raw bus) = Inr bus' \<longrightarrow>
         length (written (fst (ILI9341_image raw bus))) = 11 + ILI9341_W * ILI9341_H * 2 \<and>
         take 11 (written (fst (ILI9341_image raw bus))) =
           [0x2A, 0x00, 0x00, 0x01, 0x3F, 0x2B, 0x00, 0x00, 0x00, 0xEF, 0x2C] \<and>
         (\<forall>i<ILI9341_W * ILI9341_H. \<forall>c.
            c = rgb565 (uint (raw ! (i * 3))) (uint (raw ! (i * 3 + 1))) (uint (raw ! (i * 3 + 2))) \<longrightarrow>
            written (fst (ILI9341_image raw bus)) ! (11 + i * 2) = drop_bit 8 c \<and>
            written (fst (ILI9341_image raw bus)) ! (11 + i * 2 + 1) = c AND 0xFF))"
    if "length raw = ILI9341_W * ILI9341_H * 3"
    using ILI9341_image_sends_pixels [OF that] by blast
  have st: "snd (ST7735_image raw None) = Inr None \<and>
      (\<forall>bus bus'. snd (ST7735_image raw bus) = Inr bus' \<longrightarrow>
         length (written (fst (ST7735_image raw bus))) = 11 + ST7735_W * ST7735_H * 2 \<and>
         take 11 (written (fst (ST7735_image raw bus))) =
           [0x2A, 0x00, 0x00, 0x00, 0x9F, 0x2B, 0x00, 0x00, 0x00, 0x7F, 0x2C] \<and>
         (\<forall>i<ST7735_W * ST7735_H. \<forall>c.
            c = rgb565 (uint (raw ! (i * 3))) (uint (raw ! (i * 3 + 1))) (uint (raw ! (i * 3 + 2))) \<longrightarrow>
            written (fst (ST7735_image raw bus)) ! (11 + i * 2) = drop_bit 8 c \<and>
            written (fst (ST7735_image raw bus)) ! (11 + i * 2 + 1) = c AND 0xFF))"
    if "length raw = ST7735_W * ST7735_H * 3"
    using ST7735_image_sends_pixels [OF that] by blast
  have frame: "\<exists>buf. encode_frame W H raw = Inr buf \<and> length buf = W * H * 2 \<and>
         (\<forall>i<W * H. \<forall>c.
            c = rgb565 (uint (raw ! (i * 3))) (uint (raw ! (i * 3 + 1))) (uint (raw ! (i * 3 + 2))) \<longrightarrow>
            uint (buf ! (i * 2)) = drop_bit 8 c \<and>
            uint (buf ! (i * 2 + 1)) = c AND 0xFF \<and>
            uint (buf ! (i * 2)) * 256 + uint (buf ! (i * 2 + 1)) = c)"
    if "length raw = W * H * 3"
    using that by (rule encode_frame_bytes)
  have colours: "rgb565 255 0 0 = 0xF800" "rgb565 0 255 0 = 0x07E0" "rgb565 0 0 255 = 0x001F"
    by (simp_all add: rgb565_def)
  have fields: "0 \<le> rgb565 (uint r) (uint g) (uint b)" "rgb565 (uint r) (uint g) (uint b) < 2 ^ 16"
    "drop_bit 11 (rgb565 (uint r) (uint g) (uint b)) = drop_bit 3 (uint r)"
    "drop_bit 5 (rgb565 (uint r) (uint g) (uint b)) AND 0x3F = drop_bit 2 (uint g)"
    "rgb565 (uint r) (uint g) (uint b) AND 0x1F = drop_bit 3 (uint b)"
    using byte_range by (intro rgb565_fields; simp)+
  from ili st frame colours fields show ?thesis by blast
qed

theorem image_encodes_rgb565_witness:
  "length (replicate (ILI9341_W * ILI9341_H * 3) (255::byte)) = ILI9341_W * ILI9341_H * 3 \<and>
   snd (ILI9341_image (replicate (ILI9341_W * ILI9341_H * 3) 255) None) = Inr None \<and>
   take 11 (written (fst (ILI9341_image (replicate (ILI9341_W * ILI9341_H * 3) 255) None))) =
     [0x2A, 0x00, 0x00, 0x01, 0x3F, 0x2B, 0x00, 0x00, 0x00, 0xEF, 0x2C] \<and>
   written (fst (ILI9341_image (replicate (ILI9341_W * ILI9341_H * 3) 255) None)) ! 11 = 0xFF \<and>
   written (fst (ILI9341_image (replicate (ILI9341_W * ILI9341_H * 3) 255) None)) ! 12 = 0xFF \<and>
   length (replicate (ST7735_W * ST7735_H * 3) (255::byte)) = ST7735_W * ST7735_H * 3 \<and>
   snd (ST7735_image (replicate (ST7735_W * ST7735_H * 3) 255) None) = Inr None \<and>
   take 11 (written (fst (ST7735_image (replicate (ST7735_W * ST7735_H * 3) 255) None))) =
     [0x2A, 0x00, 0x00, 0x00, 0x9F, 0x2B, 0x00, 0x00, 0x00, 0x7F, 0x2C] \<and>
   written (fst (ST7735_image (replicate (ST7735_W * ST7735_H * 3) 255) None)) ! 11 = 0xFF \<and>
   written (fst (ST7735_image (replicate (ST7735_W * ST7735_H * 3) 255) None)) ! 12 = 0xFF \<and>
   length [255, 0, 0, 0, 255, 0, 0, 0, 255, 255, 255, 255 :: byte] = 4 * 1 * 3 \<and>
   encode_frame 4 1 [255, 0, 0, 0, 255, 0, 0, 0, 255, 255, 255, 255] =
     Inr [0xF8, 0x00, 0x07, 0xE0, 0x00, 0x1F, 0xFF, 0xFF] \<and>
   (\<exists>buf. encode_frame 4 1 [255, 0, 0, 0, 255, 0, 0, 0, 255, 255, 255, 255] = Inr buf \<and>
      length buf = 4 * 1 * 2 \<and>
      uint (buf ! (3 * 2)) * 256 + uint (buf ! (3 * 2 + 1)) = rgb565 255 255 255)"
proof -
  let ?white = "replicate (ILI9341_W * ILI9341_H * 3) (255::byte)"
  let ?white' = "replicate (ST7735_W * ST7735_H * 3) (255::byte)"
  let ?raw = "[255, 0, 0, 0, 255, 0, 0, 0, 255, 255, 255, 255 :: byte]"
  have li: "length ?white = ILI9341_W * ILI9341_H * 3"
    by (rule length_replicate)
  have ls: "length ?white' = ST7735_W * ST7735_H * 3"
    by (rule length_replicate)
  have l: "length ?raw = 4 * 1 * 3" by simp
  have w: "drop_bit 8 (rgb565 (uint (255::byte)) (uint (255::byte)) (uint (255::byte))) = 0xFF"
    "rgb565 (uint (255::byte)) (uint (255::byte)) (uint (255::byte)) AND 0xFF = 0xFF"
    by (simp_all add: rgb565_def)
  have idx: "(11::nat) + 0 * 2 = 11" "(11::nat) + 1 = 12" by simp_all
  have zi: "(0::nat) < ILI9341_W * ILI9341_H" and zs: "(0::nat) < ST7735_W * ST7735_H"
    by (simp_all add: ILI9341_W_def ILI9341_H_def ST7735_W_def ST7735_H_def)
  have ni: "(0::nat) * 3 < ILI9341_W * ILI9341_H * 3" "(0::nat) * 3 + 1 < ILI9341_W * ILI9341_H * 3"
    "(0::nat) * 3 + 2 < ILI9341_W * ILI9341_H * 3"
    by (simp_all add: ILI9341_W_def ILI9341_H_def)
  have ns: "(0::nat) * 3 < ST7735_W * ST7735_H * 3" "(0::nat) * 3 + 1 < ST7735_W * ST7735_H * 3"
    "(0::nat) * 3 + 2 < ST7735_W * ST7735_H * 3"
    by (simp_all add: ST7735_W_def ST7735_H_def)
  have pi: "?white ! (0 * 3) = 255" "?white ! (0 * 3 + 1) = 255" "?white ! (0 * 3 + 2) = 255"
    by (rule nth_replicate, rule ni)+
  have ps: "?white' ! (0 * 3) = 255" "?white' ! (0 * 3 + 1) = 255" "?white' ! (0 * 3 + 2) = 255"
    by (rule nth_replicate, rule ns)+
  note ti = image_encodes_rgb565 [of ?white 4 1 0 0 0, THEN conjunct1, THEN mp, OF li]
  note i0 = ti [THEN conjunct1]
  note ta = ti [THEN conjunct2, THEN spec, THEN spec, THEN mp, OF i0]
  note i1 = ta [THEN conjunct2, THEN conjunct1]
  note i2 = ta [THEN conjunct2, THEN conjunct2, THEN spec, THEN mp, OF zi, THEN spec, THEN mp, OF refl]
  have i3: "written (fst (ILI9341_image ?white None)) ! 11 = 0xFF \<and>
      written (fst (ILI9341_image ?white None)) ! 12 = 0xFF"
    using i2 unfolding pi idx w .
  note ts = image_encodes_rgb565 [of ?white' 4 1 0 0 0, THEN conjunct2, THEN conjunct1, THEN mp, OF ls]
  note s0 = ts [THEN conjunct1]
  note tb = ts [THEN conjunct2, THEN spec, THEN spec, THEN mp, OF s0]
  note s1 = tb [THEN conjunct2, THEN conjunct1]
  note s2 = tb [THEN conjunct2, THEN conjunct2, THEN spec, THEN mp, OF zs, THEN spec, THEN mp, OF refl]
  have s3: "written (fst (ST7735_image ?white' None)) ! 11 = 0xFF \<and>
      written (fst (ST7735_image ?white' None)) ! 12 = 0xFF"
    using s2 unfolding ps idx w .
  have e: "encode_frame 4 1 ?raw = Inr [0xF8, 0x00, 0x07, 0xE0, 0x00, 0x1F, 0xFF, 0xFF]"
    by code_simp
  from image_encodes_rgb565 [of ?raw 4 1 0 0 0, THEN conjunct2, THEN conjunct2, THEN conjunct1,
      THEN mp, OF l]
  obtain buf where b: "encode_frame 4 1 ?raw = Inr buf" "length buf = 4 * 1 * 2"
    "\<forall>i<4 * 1. \<forall>c.
        c = rgb565 (uint (?raw ! (i * 3))) (uint (?raw ! (i * 3 + 1))) (uint (?raw ! (i * 3 + 2))) \<longrightarrow>
        uint (buf ! (i * 2)) = drop_bit 8 c \<and>
        uint (buf ! (i * 2 + 1)) = c AND 0xFF \<and>
        uint (buf ! (i * 2)) * 256 + uint (buf ! (i * 2 + 1)) = c"
    by (elim exE conjE)
  have three: "(3::nat) < 4 * 1" by simp
  have "uint (buf ! (3 * 2)) * 256 + uint (buf ! (3 * 2 + 1)) =
      rgb565 (uint (?raw ! (3 * 3))) (uint (?raw ! (3 * 3 + 1))) (uint (?raw ! (3 * 3 + 2)))"
    using b(3) [THEN spec, THEN mp, OF three, THEN spec, THEN mp, OF refl]
    by (elim conjE)
  then have f: "uint (buf ! (3 * 2)) * 256 + uint (buf ! (3 * 2 + 1)) = rgb565 255 255 255"
    by simp
  have ex: "\<exists>buf. encode_frame 4 1 ?raw = Inr buf \<and> length buf = 4 * 1 * 2 \<and>
      uint (buf ! (3 * 2)) * 256 + uint (buf ! (3 * 2 + 1)) = rgb565 255 255 255"
    using b(1,2) f by (intro exI conjI)
  show ?thesis
    by (intro conjI li i0 i1 i3 [THEN conjunct1] i3 [THEN conjunct2]
        ls s0 s1 s3 [THEN conjunct1] s3 [THEN conjunct2] l e ex)
qed

section \<open>The touch noise filter\<close>

lemma adc_value_range: "0 \<le> adc_value r \<and> adc_value r < 2 ^ 13"
proof -
  obtain r0 r1 r2 where r: "r = (r0, r1, r2)" by (cases r)
  have a: "0 \<le> push_bit 8 (uint r1)" "push_bit 8 (uint r1) < 2 ^ 16"
    using uint_lt2p [of r1] by (simp_all add: push_bit_eq_mult)
  have b: "0 \<le> uint r2" "uint r2 < 2 ^ 16"
    using uint_lt2p [of r2] by simp_all
  have nn: "0 \<le> push_bit 8 (uint r1) OR uint r2"
    using a(1) b(1) by (simp only: or_nonnegative_int_iff)
  have "push_bit 8 (uint r1) OR uint r2 < 2 ^ 16"
    using a b(2) by (rule OR_upper)
  then have "drop_bit 3 (push_bit 8 (uint r1) OR uint r2) < 2 ^ 13"
    by (simp add: drop_bit_eq_div)
  with nn show ?thesis
    by (simp add: adc_value_def r)
qed

lemma ch_eight_replies:
  assumes "length replies = 8"
  shows "ch replies = middle_mean (map adc_value replies)"
  using assms by (simp add: ch_def)

lemma sum_list_between:
  fixes xs :: "int list"
  assumes "\<forall>x\<in>set xs. lo \<le> x \<and> x \<le> hi"
  shows "int (length xs) * lo \<le> sum_list xs \<and> sum_list xs \<le> int (length xs) * hi"
  using assms by (induction xs) (auto simp: algebra_simps)

lemma list8:
  assumes "length xs = 8"
  obtains a b c d e f g h where "xs = [a, b, c, d, e, f, g, h]"
proof -
  from assms have "length xs = Suc (Suc (Suc (Suc (Suc (Suc (Suc (Suc 0)))))))"
    by simp
  then show ?thesis
    using that by (auto simp only: length_Suc_conv length_0_conv)
qed

lemma sort_cong_mset:
  "mset vals' = mset vals \<Longrightarrow> sort vals' = sort vals"
  by (rule properties_for_sort) simp_all

lemma middle_mean_eight:
  assumes "length vals = 8"
  shows "middle_mean vals =
           (sort vals ! 2 + sort vals ! 3 + sort vals ! 4 + sort vals ! 5) div 4 \<and>
         Min (set vals) \<le> middle_mean vals \<and> middle_mean vals \<le> Max (set vals) \<and>
         (\<forall>vals'. mset vals' = mset vals \<longrightarrow> middle_mean vals' = middle_mean vals)"
proof -
  have len: "length (sort vals) = 8" using assms by simp
  then obtain a b c d e f g h where s: "sort vals = [a, b, c, d, e, f, g, h]"
    by (rule list8)
  have mid: "take (6 - 2) (drop 2 (sort vals)) = [c, d, e, f]"
    by (simp add: s)
  have first: "middle_mean vals =
           (sort vals ! 2 + sort vals ! 3 + sort vals ! 4 + sort vals ! 5) div 4"
    by (simp only: middle_mean_def mid) (simp add: s)
  have sub: "set (take (6 - 2) (drop 2 (sort vals))) \<subseteq> set vals"
  proof -
    have "set (take (6 - 2) (drop 2 (sort vals))) \<subseteq> set (drop 2 (sort vals))"
      by (rule set_take_subset)
    also have "\<dots> \<subseteq> set (sort vals)"
      by (rule set_drop_subset)
    also have "\<dots> = set vals"
      by simp
    finally show ?thesis .
  qed
  have ne: "vals \<noteq> []" using assms by auto
  have "\<forall>x\<in>set (take (6 - 2) (drop 2 (sort vals))). Min (set vals) \<le> x \<and> x \<le> Max (set vals)"
    using sub by (auto intro: Min_le Max_ge)
  from sum_list_between [OF this]
  have "4 * Min (set vals) \<le> sum_list (take (6 - 2) (drop 2 (sort vals)))"
    and "sum_list (take (6 - 2) (drop 2 (sort vals))) \<le> 4 * Max (set vals)"
    unfolding mid by simp_all
  then have bounds: "Min (set vals) \<le> middle_mean vals \<and> middle_mean vals \<le> Max (set vals)"
    unfolding middle_mean_def by linarith
  have perm: "\<forall>vals'. mset vals' = mset vals \<longrightarrow> middle_mean vals' = middle_mean vals"
  proof (intro allI impI)
    fix vals'
    assume "mset vals' = mset vals"
    then have "sort vals' = sort vals"
      by (rule sort_cong_mset)
    then show "middle_mean vals' = middle_mean vals"
      by (simp only: middle_mean_def)
  qed
  from first bounds perm show ?thesis by blast
qed

lemma ch_eight:
  assumes "length replies = 8"
  shows "ch replies =
           (sort (map adc_value replies) ! 2 + sort (map adc_value replies) ! 3 +
            sort (map adc_value replies) ! 4 + sort (map adc_value replies) ! 5) div 4"
    and "Min (adc_value ` set replies) \<le> ch replies"
    and "ch replies \<le> Max (adc_value ` set replies)"
    and "0 \<le> ch replies" and "ch replies < 2 ^ 13"
    and "\<forall>replies'. mset replies' = mset replies \<longrightarrow> ch replies' = ch replies"
proof -
  let ?vals = "map adc_value replies"
  have l: "length ?vals = 8" using assms by simp
  note m = middle_mean_eight [OF l]
  have c: "ch replies = middle_mean ?vals"
    using assms by (rule ch_eight_replies)
  note m1 = m [THEN conjunct1]
  note m2 = m [THEN conjunct2, THEN conjunct1]
  note m3 = m [THEN conjunct2, THEN conjunct2, THEN conjunct1]
  note m4 = m [THEN conjunct2, THEN conjunct2, THEN conjunct2]
  show "ch replies = (sort ?vals ! 2 + sort ?vals ! 3 + sort ?vals ! 4 + sort ?vals ! 5) div 4"
    using c m1 by (rule trans)
  have lo: "Min (adc_value ` set replies) \<le> ch replies"
    using m2 by (simp only: c set_map)
  have hi: "ch replies \<le> Max (adc_value ` set replies)"
    using m3 by (simp only: c set_map)
  show "Min (adc_value ` set replies) \<le> ch replies" by fact
  show "ch replies \<le> Max (adc_value ` set replies)" by fact
  have ne: "set replies \<noteq> {}" using assms by auto
  have "0 \<le> Min (adc_value ` set replies)"
    using ne adc_value_range by simp
  with lo show "0 \<le> ch replies" by linarith
  have "Max (adc_value ` set replies) < 2 ^ 13"
    using ne adc_value_range by simp
  with hi show "ch replies < 2 ^ 13" by linarith
  show "\<forall>replies'. mset replies' = mset replies \<longrightarrow> ch replies' = ch replies"
  proof (intro allI impI)
    fix replies'
    assume p: "mset replies' = mset replies"
    then have "length replies' = 8"
      using assms mset_eq_length by fastforce
    then have c': "ch replies' = middle_mean (map adc_value replies')"
      by (rule ch_eight_replies)
    from p have "mset (map adc_value replies') = mset ?vals"
      by (metis mset_map)
    with m4 have "middle_mean (map adc_value replies') = middle_mean ?vals"
      by blast
    with c c' show "ch replies' = ch replies" by simp
  qed
qed

text \<open>
  Claim C6. For every eight raw samples of a channel, the filter sorts them and returns the
  mean of the four in the middle, leaving out the two lowest and the two highest. The result
  lies between the least and the greatest of the eight, and every reordering of the eight
  gives the same result. This holds of \<open>ch\<close> on the eight replies of its transfers, and so of
  both components of \<open>_raw_touch\<close>.
\<close>

theorem middle_mean_filter:
  "(length replies = 8 \<longrightarrow>
      ch replies =
        (sort (map adc_value replies) ! 2 + sort (map adc_value replies) ! 3 +
         sort (map adc_value replies) ! 4 + sort (map adc_value replies) ! 5) div 4 \<and>
      Min (adc_value ` set replies) \<le> ch replies \<and>
      ch replies \<le> Max (adc_value ` set replies) \<and>
      (\<forall>replies'. mset replies' = mset replies \<longrightarrow> ch replies' = ch replies)) \<and>
   (length xs = 8 \<and> length ys = 8 \<longrightarrow>
      raw_touch xs ys =
        ((sort (map adc_value xs) ! 2 + sort (map adc_value xs) ! 3 +
          sort (map adc_value xs) ! 4 + sort (map adc_value xs) ! 5) div 4,
         (sort (map adc_value ys) ! 2 + sort (map adc_value ys) ! 3 +
          sort (map adc_value ys) ! 4 + sort (map adc_value ys) ! 5) div 4) \<and>
      (\<forall>xs' ys'. mset xs' = mset xs \<and> mset ys' = mset ys \<longrightarrow> raw_touch xs' ys' = raw_touch xs ys)) \<and>
   (length vals = 8 \<longrightarrow>
      middle_mean vals =
        (sort vals ! 2 + sort vals ! 3 + sort vals ! 4 + sort vals ! 5) div 4 \<and>
      Min (set vals) \<le> middle_mean vals \<and> middle_mean vals \<le> Max (set vals) \<and>
      (\<forall>vals'. mset vals' = mset vals \<longrightarrow> middle_mean vals' = middle_mean vals))"
proof (intro conjI impI)
  assume l: "length replies = 8"
  show "ch replies =
        (sort (map adc_value replies) ! 2 + sort (map adc_value replies) ! 3 +
         sort (map adc_value replies) ! 4 + sort (map adc_value replies) ! 5) div 4"
    using l by (rule ch_eight(1))
  show "Min (adc_value ` set replies) \<le> ch replies"
    using l by (rule ch_eight(2))
  show "ch replies \<le> Max (adc_value ` set replies)"
    using l by (rule ch_eight(3))
  show "\<forall>replies'. mset replies' = mset replies \<longrightarrow> ch replies' = ch replies"
    using l by (rule ch_eight(6))
next
  assume l: "length xs = 8 \<and> length ys = 8"
  then have lx: "length xs = 8" and ly: "length ys = 8" by simp_all
  show "raw_touch xs ys =
        ((sort (map adc_value xs) ! 2 + sort (map adc_value xs) ! 3 +
          sort (map adc_value xs) ! 4 + sort (map adc_value xs) ! 5) div 4,
         (sort (map adc_value ys) ! 2 + sort (map adc_value ys) ! 3 +
          sort (map adc_value ys) ! 4 + sort (map adc_value ys) ! 5) div 4)"
    unfolding raw_touch_def ch_eight(1) [OF lx] ch_eight(1) [OF ly] ..
  show "\<forall>xs' ys'. mset xs' = mset xs \<and> mset ys' = mset ys \<longrightarrow> raw_touch xs' ys' = raw_touch xs ys"
  proof (intro allI impI)
    fix xs' ys'
    assume p: "mset xs' = mset xs \<and> mset ys' = mset ys"
    from p ch_eight(6) [OF lx] have "ch xs' = ch xs" by blast
    moreover from p ch_eight(6) [OF ly] have "ch ys' = ch ys" by blast
    ultimately show "raw_touch xs' ys' = raw_touch xs ys"
      by (simp only: raw_touch_def)
  qed
next
  assume l: "length vals = 8"
  note m = middle_mean_eight [OF l]
  show "middle_mean vals =
        (sort vals ! 2 + sort vals ! 3 + sort vals ! 4 + sort vals ! 5) div 4"
    by (rule m [THEN conjunct1])
  show "Min (set vals) \<le> middle_mean vals"
    by (rule m [THEN conjunct2, THEN conjunct1])
  show "middle_mean vals \<le> Max (set vals)"
    by (rule m [THEN conjunct2, THEN conjunct2, THEN conjunct1])
  show "\<forall>vals'. mset vals' = mset vals \<longrightarrow> middle_mean vals' = middle_mean vals"
    by (rule m [THEN conjunct2, THEN conjunct2, THEN conjunct2])
qed

theorem middle_mean_filter_witness:
  "length ([(0x90, 0x00, 0x48), (0x90, 0x00, 0x08), (0x90, 0x03, 0x20), (0x90, 0x00, 0x28),
            (0x90, 0x00, 0x38), (0x90, 0x00, 0x18), (0x90, 0x00, 0x00), (0x90, 0x00, 0x40)]
           :: (byte \<times> byte \<times> byte) list) = 8 \<and>
   ch [(0x90, 0x00, 0x48), (0x90, 0x00, 0x08), (0x90, 0x03, 0x20), (0x90, 0x00, 0x28),
       (0x90, 0x00, 0x38), (0x90, 0x00, 0x18), (0x90, 0x00, 0x00), (0x90, 0x00, 0x40)] = 5 \<and>
   ch [(0x90, 0x00, 0x00), (0x90, 0x00, 0x08), (0x90, 0x00, 0x18), (0x90, 0x00, 0x28),
       (0x90, 0x00, 0x38), (0x90, 0x00, 0x40), (0x90, 0x00, 0x48), (0x90, 0x03, 0x20)] = 5 \<and>
   raw_touch
      [(0x90, 0x00, 0x48), (0x90, 0x00, 0x08), (0x90, 0x03, 0x20), (0x90, 0x00, 0x28),
       (0x90, 0x00, 0x38), (0x90, 0x00, 0x18), (0x90, 0x00, 0x00), (0x90, 0x00, 0x40)]
      [(0xD0, 0x00, 0x48), (0xD0, 0x00, 0x08), (0xD0, 0x03, 0x20), (0xD0, 0x00, 0x28),
       (0xD0, 0x00, 0x38), (0xD0, 0x00, 0x18), (0xD0, 0x00, 0x00), (0xD0, 0x00, 0x40)] = (5, 5) \<and>
   length [9, 1, 100, 5, 7, 3, 0, 8 :: int] = 8 \<and>
   middle_mean [9, 1, 100, 5, 7, 3, 0, 8] = 5 \<and>
   Min (set [9, 1, 100, 5, 7, 3, 0, 8 :: int]) \<le> middle_mean [9, 1, 100, 5, 7, 3, 0, 8] \<and>
   middle_mean [9, 1, 100, 5, 7, 3, 0, 8] \<le> Max (set [9, 1, 100, 5, 7, 3, 0, 8 :: int]) \<and>
   middle_mean [0, 1, 3, 5, 7, 8, 9, 100] = middle_mean [9, 1, 100, 5, 7, 3, 0, 8]"
proof -
  let ?xs = "([(0x90, 0x00, 0x48), (0x90, 0x00, 0x08), (0x90, 0x03, 0x20), (0x90, 0x00, 0x28),
       (0x90, 0x00, 0x38), (0x90, 0x00, 0x18), (0x90, 0x00, 0x00), (0x90, 0x00, 0x40)]
       :: (byte \<times> byte \<times> byte) list)"
  let ?xs' = "([(0x90, 0x00, 0x00), (0x90, 0x00, 0x08), (0x90, 0x00, 0x18), (0x90, 0x00, 0x28),
       (0x90, 0x00, 0x38), (0x90, 0x00, 0x40), (0x90, 0x00, 0x48), (0x90, 0x03, 0x20)]
       :: (byte \<times> byte \<times> byte) list)"
  let ?ys = "([(0xD0, 0x00, 0x48), (0xD0, 0x00, 0x08), (0xD0, 0x03, 0x20), (0xD0, 0x00, 0x28),
       (0xD0, 0x00, 0x38), (0xD0, 0x00, 0x18), (0xD0, 0x00, 0x00), (0xD0, 0x00, 0x40)]
       :: (byte \<times> byte \<times> byte) list)"
  let ?vals = "[9, 1, 100, 5, 7, 3, 0, 8 :: int]"
  have lx: "length ?xs = 8" and ly: "length ?ys = 8" and lv: "length ?vals = 8"
    by simp_all
  have mx: "mset ?xs' = mset ?xs" by simp
  have mv: "mset [0, 1, 3, 5, 7, 8, 9, 100 :: int] = mset ?vals" by simp
  have sx: "(sort (map adc_value ?xs) ! 2 + sort (map adc_value ?xs) ! 3 +
         sort (map adc_value ?xs) ! 4 + sort (map adc_value ?xs) ! 5) div 4 = 5"
    by code_simp
  have sy: "(sort (map adc_value ?ys) ! 2 + sort (map adc_value ?ys) ! 3 +
         sort (map adc_value ?ys) ! 4 + sort (map adc_value ?ys) ! 5) div 4 = 5"
    by code_simp
  have v: "(sort ?vals ! 2 + sort ?vals ! 3 + sort ?vals ! 4 + sort ?vals ! 5) div 4 = 5"
    by code_simp
  note t = middle_mean_filter [of ?xs ?xs ?ys ?vals]
  note tc = t [THEN conjunct1, THEN mp, OF lx]
  note tr = t [THEN conjunct2, THEN conjunct1, THEN mp, OF conjI [OF lx ly]]
  note tm = t [THEN conjunct2, THEN conjunct2, THEN mp, OF lv]
  have c1: "ch ?xs = 5"
    using tc [THEN conjunct1] sx by (rule trans)
  have c2: "ch ?xs' = 5"
    using tc [THEN conjunct2, THEN conjunct2, THEN conjunct2, THEN spec, THEN mp, OF mx] c1
    by (rule trans)
  have r: "raw_touch ?xs ?ys = (5, 5)"
    using tr [THEN conjunct1] by (simp only: sx sy)
  have m1: "middle_mean ?vals = 5"
    using tm [THEN conjunct1] v by (rule trans)
  note m2 = tm [THEN conjunct2, THEN conjunct1]
  note m3 = tm [THEN conjunct2, THEN conjunct2, THEN conjunct1]
  note m4 = tm [THEN conjunct2, THEN conjunct2, THEN conjunct2, THEN spec, THEN mp, OF mv]
  show ?thesis
    by (intro conjI lx c1 c2 r lv m1 m2 m3 m4)
qed

section \<open>Touch calibration\<close>

lemma fl64_0: "fl64 0 = 0"
  by (simp add: fl64_def)

lemma fl64_1: "fl64 1 = 1"
  by code_simp

lemma fl64_320: "fl64 320 = 320"
  by code_simp

lemma fl64_240: "fl64 240 = 240"
  by code_simp

lemma scale_axis_total: "\<exists>v. scale_axis raw lo hi extent = Inr v"
  by (simp add: scale_axis_def truediv_def and_then_def)

lemma scale_axis_lo: "scale_axis lo lo hi extent = Inr 0"
  by (simp add: scale_axis_def truediv_def and_then_def fl64_0 float_mul_int_def py_int_def)

lemma scale_axis_hi_W:
  assumes "lo < hi"
  shows "scale_axis hi lo hi SCREEN_W = Inr SCREEN_W"
proof -
  from assms have m: "max 1 (hi - lo) = hi - lo" "hi - lo \<noteq> 0" by simp_all
  then have q: "(of_int (hi - lo) :: rat) / of_int (max 1 (hi - lo)) = 1"
    by simp
  have "truediv (hi - lo) (max 1 (hi - lo)) = Inr 1"
    unfolding truediv_def q using m by (simp add: fl64_1)
  then show ?thesis
    by (simp add: scale_axis_def and_then_def float_mul_int_def SCREEN_W_def fl64_320 py_int_def)
qed

lemma scale_axis_hi_H:
  assumes "lo < hi"
  shows "scale_axis hi lo hi SCREEN_H = Inr SCREEN_H"
proof -
  from assms have m: "max 1 (hi - lo) = hi - lo" "hi - lo \<noteq> 0" by simp_all
  then have q: "(of_int (hi - lo) :: rat) / of_int (max 1 (hi - lo)) = 1"
    by simp
  have "truediv (hi - lo) (max 1 (hi - lo)) = Inr 1"
    unfolding truediv_def q using m by (simp add: fl64_1)
  then show ?thesis
    by (simp add: scale_axis_def and_then_def float_mul_int_def SCREEN_H_def fl64_240 py_int_def)
qed

lemma read_touch_no_touch:
  "(if \<not> TOUCH_IRQ_ACTIVE_HIGH cal then irq else \<not> irq) \<Longrightarrow> read_touch cal irq raw = Inr None"
  by (simp add: read_touch_def)

lemma read_touch_touching:
  assumes "\<not> (if \<not> TOUCH_IRQ_ACTIVE_HIGH cal then irq else \<not> irq)"
    and "scale_axis (if CAL_SWAP_XY cal then snd raw else fst raw) (CAL_X_MIN cal) (CAL_X_MAX cal) SCREEN_W = Inr x"
    and "scale_axis (if CAL_SWAP_XY cal then fst raw else snd raw) (CAL_Y_MIN cal) (CAL_Y_MAX cal) SCREEN_H = Inr y"
  shows "read_touch cal irq raw =
           Inr (Some (max 0 (min (SCREEN_W - 1) (if CAL_FLIP_X cal then SCREEN_W - 1 - x else x)),
                      max 0 (min (SCREEN_H - 1) (if CAL_FLIP_Y cal then SCREEN_H - 1 - y else y))))"
  using assms by (simp add: read_touch_def and_then_def Let_def)

lemma read_touch_returns:
  "\<exists>r. read_touch cal irq raw = Inr r"
proof (cases "if \<not> TOUCH_IRQ_ACTIVE_HIGH cal then irq else \<not> irq")
  case True
  then show ?thesis by (simp add: read_touch_no_touch)
next
  case False
  obtain x where x: "scale_axis (if CAL_SWAP_XY cal then snd raw else fst raw) (CAL_X_MIN cal) (CAL_X_MAX cal) SCREEN_W = Inr x"
    using scale_axis_total by blast
  obtain y where y: "scale_axis (if CAL_SWAP_XY cal then fst raw else snd raw) (CAL_Y_MIN cal) (CAL_Y_MAX cal) SCREEN_H = Inr y"
    using scale_axis_total by blast
  from read_touch_touching [OF False x y] show ?thesis by blast
qed

lemma read_touch_in_bounds:
  assumes "read_touch cal irq raw = Inr (Some (x, y))"
  shows "0 \<le> x \<and> x \<le> SCREEN_W - 1 \<and> 0 \<le> y \<and> y \<le> SCREEN_H - 1"
proof (cases "if \<not> TOUCH_IRQ_ACTIVE_HIGH cal then irq else \<not> irq")
  case True
  with assms show ?thesis by (simp add: read_touch_no_touch)
next
  case False
  obtain x0 where x: "scale_axis (if CAL_SWAP_XY cal then snd raw else fst raw) (CAL_X_MIN cal) (CAL_X_MAX cal) SCREEN_W = Inr x0"
    using scale_axis_total by blast
  obtain y0 where y: "scale_axis (if CAL_SWAP_XY cal then fst raw else snd raw) (CAL_Y_MIN cal) (CAL_Y_MAX cal) SCREEN_H = Inr y0"
    using scale_axis_total by blast
  from read_touch_touching [OF False x y] assms
  have "x = max 0 (min (SCREEN_W - 1) (if CAL_FLIP_X cal then SCREEN_W - 1 - x0 else x0))"
    and "y = max 0 (min (SCREEN_H - 1) (if CAL_FLIP_Y cal then SCREEN_H - 1 - y0 else y0))"
    by simp_all
  then show ?thesis
    by (simp add: SCREEN_W_def SCREEN_H_def)
qed


lemma read_touch_corner:
  assumes touching: "\<not> (if \<not> TOUCH_IRQ_ACTIVE_HIGH cal then irq else \<not> irq)"
    and nf: "\<not> CAL_FLIP_X cal" "\<not> CAL_FLIP_Y cal"
    and sx: "scale_axis rx (CAL_X_MIN cal) (CAL_X_MAX cal) SCREEN_W = Inr x"
    and sy: "scale_axis ry (CAL_Y_MIN cal) (CAL_Y_MAX cal) SCREEN_H = Inr y"
  shows "read_touch cal irq (if CAL_SWAP_XY cal then (ry, rx) else (rx, ry)) =
           Inr (Some (max 0 (min (SCREEN_W - 1) x), max 0 (min (SCREEN_H - 1) y)))"
proof -
  let ?raw = "if CAL_SWAP_XY cal then (ry, rx) else (rx, ry)"
  have a: "(if CAL_SWAP_XY cal then snd ?raw else fst ?raw) = rx"
    and b: "(if CAL_SWAP_XY cal then fst ?raw else snd ?raw) = ry"
    by simp_all
  from read_touch_touching [of cal irq ?raw x y, unfolded a b, OF touching sx sy] nf
  show ?thesis by simp
qed

text \<open>
  Claim C3. When a touch is detected, \<open>read_touch\<close> returns a coordinate with
  \<open>0 \<le> x \<le> SCREEN_W - 1\<close> and \<open>0 \<le> y \<le> SCREEN_H - 1\<close> for every raw pair and every
  calibration. Under a calibration with \<open>min < max\<close> on both axes and no flip, as the module's
  constants are, the raw pair (after the optional swap) at \<open>(x_min, y_min)\<close>, \<open>(x_max, y_min)\<close>,
  \<open>(x_min, y_max)\<close>, \<open>(x_max, y_max)\<close> gives the corner \<open>(0, 0)\<close>, \<open>(W - 1, 0)\<close>,
  \<open>(0, H - 1)\<close>, \<open>(W - 1, H - 1)\<close>.
\<close>

theorem read_touch_calibrated:
  assumes "\<not> (if \<not> TOUCH_IRQ_ACTIVE_HIGH cal then irq else \<not> irq)"
  shows "(\<exists>x y. read_touch cal irq raw = Inr (Some (x, y)) \<and>
            0 \<le> x \<and> x \<le> SCREEN_W - 1 \<and> 0 \<le> y \<and> y \<le> SCREEN_H - 1) \<and>
         (CAL_X_MIN cal < CAL_X_MAX cal \<and> CAL_Y_MIN cal < CAL_Y_MAX cal \<and>
          \<not> CAL_FLIP_X cal \<and> \<not> CAL_FLIP_Y cal \<longrightarrow>
            read_touch cal irq (if CAL_SWAP_XY cal then (CAL_Y_MIN cal, CAL_X_MIN cal)
                                else (CAL_X_MIN cal, CAL_Y_MIN cal)) = Inr (Some (0, 0)) \<and>
            read_touch cal irq (if CAL_SWAP_XY cal then (CAL_Y_MIN cal, CAL_X_MAX cal)
                                else (CAL_X_MAX cal, CAL_Y_MIN cal)) = Inr (Some (SCREEN_W - 1, 0)) \<and>
            read_touch cal irq (if CAL_SWAP_XY cal then (CAL_Y_MAX cal, CAL_X_MIN cal)
                                else (CAL_X_MIN cal, CAL_Y_MAX cal)) = Inr (Some (0, SCREEN_H - 1)) \<and>
            read_touch cal irq (if CAL_SWAP_XY cal then (CAL_Y_MAX cal, CAL_X_MAX cal)
                                else (CAL_X_MAX cal, CAL_Y_MAX cal)) =
              Inr (Some (SCREEN_W - 1, SCREEN_H - 1)))"
proof
  obtain x0 where x: "scale_axis (if CAL_SWAP_XY cal then snd raw else fst raw) (CAL_X_MIN cal) (CAL_X_MAX cal) SCREEN_W = Inr x0"
    using scale_axis_total by blast
  obtain y0 where y: "scale_axis (if CAL_SWAP_XY cal then fst raw else snd raw) (CAL_Y_MIN cal) (CAL_Y_MAX cal) SCREEN_H = Inr y0"
    using scale_axis_total by blast
  let ?x = "max 0 (min (SCREEN_W - 1) (if CAL_FLIP_X cal then SCREEN_W - 1 - x0 else x0))"
  let ?y = "max 0 (min (SCREEN_H - 1) (if CAL_FLIP_Y cal then SCREEN_H - 1 - y0 else y0))"
  have r: "read_touch cal irq raw = Inr (Some (?x, ?y))"
    using assms x y by (rule read_touch_touching)
  have "0 \<le> ?x \<and> ?x \<le> SCREEN_W - 1 \<and> 0 \<le> ?y \<and> ?y \<le> SCREEN_H - 1"
    using r by (rule read_touch_in_bounds)
  with r show "\<exists>x y. read_touch cal irq raw = Inr (Some (x, y)) \<and>
            0 \<le> x \<and> x \<le> SCREEN_W - 1 \<and> 0 \<le> y \<and> y \<le> SCREEN_H - 1"
    by blast
next
  show "CAL_X_MIN cal < CAL_X_MAX cal \<and> CAL_Y_MIN cal < CAL_Y_MAX cal \<and>
          \<not> CAL_FLIP_X cal \<and> \<not> CAL_FLIP_Y cal \<longrightarrow>
            read_touch cal irq (if CAL_SWAP_XY cal then (CAL_Y_MIN cal, CAL_X_MIN cal)
                                else (CAL_X_MIN cal, CAL_Y_MIN cal)) = Inr (Some (0, 0)) \<and>
            read_touch cal irq (if CAL_SWAP_XY cal then (CAL_Y_MIN cal, CAL_X_MAX cal)
                                else (CAL_X_MAX cal, CAL_Y_MIN cal)) = Inr (Some (SCREEN_W - 1, 0)) \<and>
            read_touch cal irq (if CAL_SWAP_XY cal then (CAL_Y_MAX cal, CAL_X_MIN cal)
                                else (CAL_X_MIN cal, CAL_Y_MAX cal)) = Inr (Some (0, SCREEN_H - 1)) \<and>
            read_touch cal irq (if CAL_SWAP_XY cal then (CAL_Y_MAX cal, CAL_X_MAX cal)
                                else (CAL_X_MAX cal, CAL_Y_MAX cal)) =
              Inr (Some (SCREEN_W - 1, SCREEN_H - 1))"
  proof (intro impI)
    assume h: "CAL_X_MIN cal < CAL_X_MAX cal \<and> CAL_Y_MIN cal < CAL_Y_MAX cal \<and>
          \<not> CAL_FLIP_X cal \<and> \<not> CAL_FLIP_Y cal"
    then have nf: "\<not> CAL_FLIP_X cal" "\<not> CAL_FLIP_Y cal" by simp_all
    have xl: "scale_axis (CAL_X_MIN cal) (CAL_X_MIN cal) (CAL_X_MAX cal) SCREEN_W = Inr 0"
      by (rule scale_axis_lo)
    have yl: "scale_axis (CAL_Y_MIN cal) (CAL_Y_MIN cal) (CAL_Y_MAX cal) SCREEN_H = Inr 0"
      by (rule scale_axis_lo)
    have xh: "scale_axis (CAL_X_MAX cal) (CAL_X_MIN cal) (CAL_X_MAX cal) SCREEN_W = Inr SCREEN_W"
      using h by (intro scale_axis_hi_W) simp
    have yh: "scale_axis (CAL_Y_MAX cal) (CAL_Y_MIN cal) (CAL_Y_MAX cal) SCREEN_H = Inr SCREEN_H"
      using h by (intro scale_axis_hi_H) simp
    have c: "max 0 (min (SCREEN_W - 1) 0) = 0" "max 0 (min (SCREEN_H - 1) 0) = 0"
      "max 0 (min (SCREEN_W - 1) SCREEN_W) = SCREEN_W - 1"
      "max 0 (min (SCREEN_H - 1) SCREEN_H) = SCREEN_H - 1"
      by (simp_all add: SCREEN_W_def SCREEN_H_def)
    from read_touch_corner [OF assms nf xl yl] read_touch_corner [OF assms nf xh yl]
      read_touch_corner [OF assms nf xl yh] read_touch_corner [OF assms nf xh yh]
    show "read_touch cal irq (if CAL_SWAP_XY cal then (CAL_Y_MIN cal, CAL_X_MIN cal)
                                else (CAL_X_MIN cal, CAL_Y_MIN cal)) = Inr (Some (0, 0)) \<and>
            read_touch cal irq (if CAL_SWAP_XY cal then (CAL_Y_MIN cal, CAL_X_MAX cal)
                                else (CAL_X_MAX cal, CAL_Y_MIN cal)) = Inr (Some (SCREEN_W - 1, 0)) \<and>
            read_touch cal irq (if CAL_SWAP_XY cal then (CAL_Y_MAX cal, CAL_X_MIN cal)
                                else (CAL_X_MIN cal, CAL_Y_MAX cal)) = Inr (Some (0, SCREEN_H - 1)) \<and>
            read_touch cal irq (if CAL_SWAP_XY cal then (CAL_Y_MAX cal, CAL_X_MAX cal)
                                else (CAL_X_MAX cal, CAL_Y_MAX cal)) =
              Inr (Some (SCREEN_W - 1, SCREEN_H - 1))"
      unfolding c by blast
  qed
qed

theorem read_touch_calibrated_witness:
  "\<not> (if \<not> TOUCH_IRQ_ACTIVE_HIGH module_calibration then False else \<not> False) \<and>
   CAL_X_MIN module_calibration < CAL_X_MAX module_calibration \<and>
   CAL_Y_MIN module_calibration < CAL_Y_MAX module_calibration \<and>
   \<not> CAL_FLIP_X module_calibration \<and> \<not> CAL_FLIP_Y module_calibration \<and>
   read_touch module_calibration False (445, 606) = Inr (Some (0, 0)) \<and>
   read_touch module_calibration False (3492, 606) = Inr (Some (319, 0)) \<and>
   read_touch module_calibration False (445, 3615) = Inr (Some (0, 239)) \<and>
   read_touch module_calibration False (3492, 3615) = Inr (Some (319, 239)) \<and>
   (\<exists>x y. read_touch module_calibration False (0, 8191) = Inr (Some (x, y)) \<and>
      0 \<le> x \<and> x \<le> SCREEN_W - 1 \<and> 0 \<le> y \<and> y \<le> SCREEN_H - 1)"
proof -
  have t: "\<not> (if \<not> TOUCH_IRQ_ACTIVE_HIGH module_calibration then False else \<not> False)"
    by (simp add: module_calibration_def)
  have p: "CAL_X_MIN module_calibration < CAL_X_MAX module_calibration \<and>
      CAL_Y_MIN module_calibration < CAL_Y_MAX module_calibration \<and>
      \<not> CAL_FLIP_X module_calibration \<and> \<not> CAL_FLIP_Y module_calibration"
    by (simp add: module_calibration_def)
  have v: "CAL_X_MIN module_calibration = 445" "CAL_X_MAX module_calibration = 3492"
    "CAL_Y_MIN module_calibration = 606" "CAL_Y_MAX module_calibration = 3615"
    "\<not> CAL_SWAP_XY module_calibration" "SCREEN_W - 1 = 319" "SCREEN_H - 1 = 239"
    by (simp_all add: module_calibration_def SCREEN_W_def SCREEN_H_def)
  from read_touch_calibrated [OF t, of "(0, 8191)"] p t
  show ?thesis
    by (simp only: v if_False) blast
qed


text \<open>
  Claim C4 says that a calibration range with \<open>max = min\<close> is rejected when the driver is set
  up and never handled per sample. With \<open>CAL_X_MAX = CAL_X_MIN = 445\<close> nothing is rejected:
  \<open>read_touch\<close> maps the sample \<open>(500, 606)\<close> to \<open>(319, 0)\<close>.
\<close>

theorem degenerate_range_rejected_counterexample:
  "CAL_X_MAX (module_calibration\<lparr>CAL_X_MAX := 445\<rparr>) =
     CAL_X_MIN (module_calibration\<lparr>CAL_X_MAX := 445\<rparr>) \<and>
   read_touch (module_calibration\<lparr>CAL_X_MAX := 445\<rparr>) False (500, 606) =
     Inr (Some (319, 0))"
  by code_simp

text \<open>
  Claim C4, amended. No calibration is rejected, at set-up or anywhere else. A range with
  \<open>max \<le> min\<close> is handled at each sample: the divisor of each axis is \<open>max(1, max - min)\<close>, so
  such a range behaves as a range of width 1. Under every calibration the divisor is never
  zero and \<open>read_touch\<close> never raises \<open>ZeroDivisionError\<close>.
\<close>

theorem read_touch_never_divides_by_zero:
  "read_touch cal irq raw \<noteq> Inl ZeroDivisionError \<and>
   scale_axis v lo hi extent \<noteq> Inl ZeroDivisionError \<and>
   truediv (v - lo) (max 1 (hi - lo)) \<noteq> Inl ZeroDivisionError \<and>
   max 1 (hi - lo) \<noteq> 0 \<and>
   (hi \<le> lo \<longrightarrow>
      max 1 (hi - lo) = 1 \<and> scale_axis v lo hi extent = scale_axis v lo (lo + 1) extent)"
proof -
  obtain r where "read_touch cal irq raw = Inr r"
    using read_touch_returns by blast
  then have a: "read_touch cal irq raw \<noteq> Inl ZeroDivisionError" by simp
  obtain x where "scale_axis v lo hi extent = Inr x"
    using scale_axis_total by blast
  then have b: "scale_axis v lo hi extent \<noteq> Inl ZeroDivisionError" by simp
  have c: "truediv (v - lo) (max 1 (hi - lo)) \<noteq> Inl ZeroDivisionError"
    by (simp add: truediv_def)
  have d: "max 1 (hi - lo) \<noteq> 0" by simp
  have e: "max 1 (hi - lo) = 1 \<and> scale_axis v lo hi extent = scale_axis v lo (lo + 1) extent"
    if "hi \<le> lo"
    using that by (simp add: scale_axis_def)
  from a b c d e show ?thesis by blast
qed

theorem read_touch_never_divides_by_zero_witness:
  "(445::int) \<le> 445 \<and> max 1 (445 - 445) = (1::int) \<and>
   scale_axis 500 445 445 SCREEN_W = scale_axis 500 445 446 SCREEN_W \<and>
   scale_axis 500 445 445 SCREEN_W = Inr 17600 \<and>
   read_touch (module_calibration\<lparr>CAL_X_MAX := 445\<rparr>) False (500, 606) \<noteq> Inl ZeroDivisionError"
proof -
  have h: "(445::int) \<le> 445" by simp
  have e: "scale_axis 500 445 445 SCREEN_W = Inr 17600"
    by code_simp
  note t = read_touch_never_divides_by_zero
    [of "module_calibration\<lparr>CAL_X_MAX := 445\<rparr>" False "(500, 606)" 500 445 445 SCREEN_W]
  note t1 = t [THEN conjunct1]
  note t5 = t [THEN conjunct2, THEN conjunct2, THEN conjunct2, THEN conjunct2, THEN mp, OF h]
  have p: "(445::int) + 1 = 446" by simp
  show ?thesis
    using h t1 t5 [unfolded p] e by (intro conjI) simp_all
qed

section \<open>Hit testing\<close>

lemma hit_test_Cons:
  "hit_test tx ty (r # rs) = (if inside tx ty r then Some (payload_of r) else hit_test tx ty rs)"
  by (cases r) (simp add: inside_def payload_of_def)

lemma hit_test_find:
  "hit_test tx ty regions =
     (case find (inside tx ty) regions of None \<Rightarrow> None | Some r \<Rightarrow> Some (payload_of r))"
proof (induction regions)
  case Nil
  show ?case by simp
next
  case (Cons r rs)
  then show ?case by (simp only: hit_test_Cons find.simps split: if_split) simp
qed

lemma hit_test_None_iff:
  "hit_test tx ty regions = None \<longleftrightarrow> (\<forall>r\<in>set regions. \<not> inside tx ty r)"
  by (induction regions) (simp_all add: hit_test_Cons)

lemma hit_test_Some_iff:
  "hit_test tx ty regions = Some p \<longleftrightarrow>
      (\<exists>i<length regions. inside tx ty (regions ! i) \<and> payload_of (regions ! i) = p \<and>
         (\<forall>j<i. \<not> inside tx ty (regions ! j)))"
proof (cases "find (inside tx ty) regions")
  case None
  then have "\<forall>r\<in>set regions. \<not> inside tx ty r"
    by (simp only: find_None_iff) blast
  then have no: "\<not> inside tx ty (regions ! i)" if "i < length regions" for i
    using that nth_mem by blast
  from None have "hit_test tx ty regions = None"
    by (simp only: hit_test_find option.case)
  with no show ?thesis by auto
next
  case (Some r)
  then obtain i where i: "i < length regions" "inside tx ty (regions ! i)" "r = regions ! i"
    "\<forall>j<i. \<not> inside tx ty (regions ! j)"
    unfolding find_Some_iff by blast
  have first: "k = i"
    if "k < length regions" "inside tx ty (regions ! k)" "\<forall>j<k. \<not> inside tx ty (regions ! j)" for k
  proof (rule ccontr)
    assume "k \<noteq> i"
    then consider "k < i" | "i < k" by linarith
    then show False
    proof cases
      case 1
      with i(4) that(2) show False by blast
    next
      case 2
      with that(3) i(2) show False by blast
    qed
  qed
  from Some have ht: "hit_test tx ty regions = Some (payload_of (regions ! i))"
    by (simp only: hit_test_find option.case i(3))
  show ?thesis
  proof
    assume "hit_test tx ty regions = Some p"
    with ht have "payload_of (regions ! i) = p" by simp
    with i show "\<exists>i<length regions. inside tx ty (regions ! i) \<and> payload_of (regions ! i) = p \<and>
         (\<forall>j<i. \<not> inside tx ty (regions ! j))" by blast
  next
    assume "\<exists>i<length regions. inside tx ty (regions ! i) \<and> payload_of (regions ! i) = p \<and>
         (\<forall>j<i. \<not> inside tx ty (regions ! j))"
    then obtain k where k: "k < length regions" "inside tx ty (regions ! k)"
      "payload_of (regions ! k) = p" "\<forall>j<k. \<not> inside tx ty (regions ! j)" by blast
    from first [OF k(1,2,4)] k(3) ht show "hit_test tx ty regions = Some p" by simp
  qed
qed


text \<open>
  Claim C7. For every touch point and every list of regions, \<open>hit_test\<close> returns the payload
  of the first region, in the order of the list, whose inclusive rectangle holds the point,
  and it returns \<open>None\<close> exactly when no region holds the point.
\<close>

theorem hit_test_first_match:
  "(hit_test tx ty regions = None \<longleftrightarrow> (\<forall>r\<in>set regions. \<not> inside tx ty r)) \<and>
   (hit_test tx ty regions = Some p \<longleftrightarrow>
      (\<exists>i<length regions. inside tx ty (regions ! i) \<and> payload_of (regions ! i) = p \<and>
         (\<forall>j<i. \<not> inside tx ty (regions ! j))))"
  using hit_test_None_iff [of tx ty regions] hit_test_Some_iff [of tx ty regions p]
  by (rule conjI)

theorem hit_test_first_match_witness:
  "hit_test 50 230 [(0, 222, 100, 240, ''dashboard''), (0, 0, 320, 240, ''apps'')] = Some ''dashboard'' \<and>
   hit_test 50 100 [(0, 222, 100, 240, ''dashboard''), (0, 0, 320, 240, ''apps'')] = Some ''apps'' \<and>
   hit_test 50 300 [(0, 222, 100, 240, ''dashboard''), (0, 0, 320, 240, ''apps'')] = None"
proof -
  let ?rs = "[(0::int, 222::int, 100::int, 240::int, ''dashboard''), (0, 0, 320, 240, ''apps'')]"
  have a: "\<exists>i<length ?rs. inside 50 230 (?rs ! i) \<and> payload_of (?rs ! i) = ''dashboard'' \<and>
         (\<forall>j<i. \<not> inside 50 230 (?rs ! j))"
    by (rule exI [of _ 0]) (simp add: inside_def payload_of_def)
  have b: "\<exists>i<length ?rs. inside 50 100 (?rs ! i) \<and> payload_of (?rs ! i) = ''apps'' \<and>
         (\<forall>j<i. \<not> inside 50 100 (?rs ! j))"
    by (rule exI [of _ 1]) (simp add: inside_def payload_of_def)
  have c: "\<forall>r\<in>set ?rs. \<not> inside 50 300 r"
    by (simp add: inside_def)
  from hit_test_first_match [of 50 230 ?rs "''dashboard''"] a
    hit_test_first_match [of 50 100 ?rs "''apps''"] b
    hit_test_first_match [of 50 300 ?rs] c
  show ?thesis by blast
qed

section \<open>Touch routing\<close>

text \<open>
  Claim C8. On the focus screen with a session active, a touch inside the back region that
  passes the debounce test moves to the dashboard, clears \<open>focus_active\<close> and sets the elapsed
  count to 0.
\<close>

theorem focus_back_cancels_session:
  assumes "screen st = SCREEN_FOCUS" and "focus_active st"
    and "0 \<le> x" and "x \<le> 100" and "ILI_H - BOT_H \<le> y" and "y \<le> ILI_H"
    and "of_int DEBOUNCE_MS < float_sub now_ms last_touch_ms"
  shows "handle_touch x y st =
           (True, st\<lparr>screen := SCREEN_DASHBOARD, focus_elapsed_mins := 0,
                      focus_active := False, focus_message := ''Session ended.''\<rparr>) \<and>
         touch_step now_ms (Some (x, y)) (last_touch_ms, st) =
           (now_ms,
            st\<lparr>screen := SCREEN_DASHBOARD, focus_elapsed_mins := 0,
               focus_active := False, focus_message := ''Session ended.''\<rparr>,
            Some True)"
proof -
  have hit: "hit_test x y BACK_REGION = Some SCREEN_DASHBOARD"
    using assms(3-6) by (simp add: BACK_REGION_def)
  have h: "handle_touch x y st =
           (True, st\<lparr>screen := SCREEN_DASHBOARD, focus_elapsed_mins := 0,
                      focus_active := False, focus_message := ''Session ended.''\<rparr>)"
    using assms(1,2) hit
    by (simp add: handle_touch_def truthy_def Let_def
        SCREEN_FOCUS_def SCREEN_DASHBOARD_def SCREEN_APPS_def SCREEN_SYSMON_def)
  show ?thesis
    using h assms(7) by (simp add: touch_step_def Let_def)
qed

theorem focus_back_cancels_session_witness:
  "handle_touch 50 230
     (AppState_init\<lparr>screen := SCREEN_FOCUS, focus_elapsed_mins := 8, focus_active := True\<rparr>) =
   (True, AppState_init\<lparr>screen := SCREEN_DASHBOARD, focus_elapsed_mins := 0,
            focus_active := False, focus_message := ''Session ended.''\<rparr>) \<and>
   touch_step 1000 (Some (50, 230))
     (0, AppState_init\<lparr>screen := SCREEN_FOCUS, focus_elapsed_mins := 8, focus_active := True\<rparr>) =
   (1000, AppState_init\<lparr>screen := SCREEN_DASHBOARD, focus_elapsed_mins := 0,
            focus_active := False, focus_message := ''Session ended.''\<rparr>, Some True)"
proof -
  have d: "of_int DEBOUNCE_MS < float_sub 1000 0"
    by code_simp
  show ?thesis
    using focus_back_cancels_session [of
        "AppState_init\<lparr>screen := SCREEN_FOCUS, focus_elapsed_mins := 8, focus_active := True\<rparr>"
        50 230 1000 0, OF _ _ _ _ _ _ d]
    by (simp add: AppState_init_def ILI_H_def BOT_H_def)
qed

section \<open>Debounce\<close>

lemma debounce_reject:
  assumes "t - l \<le> 300"
  shows "touch_step t (Some p) (l, st) = (l, st, None)"
proof -
  have "fl64 (t - l) \<le> 300"
    using assms by (rule fl64_le_fixed) (simp_all add: fl64_300)
  then show ?thesis
    by (simp add: touch_step_def float_sub_def DEBOUNCE_MS_def)
qed

lemma debounce_accept:
  assumes "of_int DEBOUNCE_MS < float_sub t l"
  shows "touch_step t (Some p) (l, st) =
           (t, snd (handle_touch (fst p) (snd p) st), Some (fst (handle_touch (fst p) (snd p) st)))"
  using assms by (simp add: touch_step_def Let_def)

lemma debounce_skip:
  assumes "\<not> of_int DEBOUNCE_MS < float_sub t l"
  shows "touch_step t (Some p) (l, st) = (l, st, None)"
  using assms by (simp add: touch_step_def Let_def)


lemma debounce_accept_350:
  assumes "t - l = 350"
  shows "of_int DEBOUNCE_MS < float_sub t l"
  using assms by (simp add: float_sub_def fl64_350 DEBOUNCE_MS_def)

text \<open>
  Claim C5 says that of any two touches 250 ms apart the second is ignored, and that of any
  two touches 350 ms apart both are accepted. From the initial state, with the recorded time
  at 0, a touch at 900 ms is routed and recorded; a touch at 1000 ms is dropped and leaves
  the recorded time at 900; the touch 250 ms after that one, at 1250 ms, is then routed. With
  the last touch at 1350 ms instead, 350 ms after the one at 1000 ms, the one at 1000 ms is
  dropped all the same, so not both are accepted.
\<close>

theorem debounce_two_touches_counterexample:
  "(1250::rat) - 1000 = 250 \<and>
   touch_run [(900, (50, 100)), (1000, (50, 100)), (1250, (50, 100))] (0, AppState_init) =
     [True, False, True] \<and>
   (1350::rat) - 1000 = 350 \<and>
   touch_run [(900, (50, 100)), (1000, (50, 100)), (1350, (50, 100))] (0, AppState_init) =
     [True, False, True]"
  by code_simp

text \<open>
  Claim C5, amended. With \<open>DEBOUNCE_MS = 300\<close>, let a first touch at \<open>t1\<close> pass the debounce
  test, so that it is accepted and routed. A second touch 250 ms later is ignored: \<open>handle_touch\<close>
  is not called and the state and the recorded time stay as they were. A second touch 350 ms
  later is accepted and routed. Whenever a touch is routed, more than 300 ms separate it
  from the recorded time of the touch accepted before it.
\<close>

theorem debounce_250_350:
  assumes "of_int DEBOUNCE_MS < float_sub t1 l"
  shows "touch_step t1 (Some p1) (l, st) =
           (t1, snd (handle_touch (fst p1) (snd p1) st),
            Some (fst (handle_touch (fst p1) (snd p1) st))) \<and>
         (t2 - t1 = 250 \<longrightarrow>
            touch_step t2 (Some p2) (t1, snd (handle_touch (fst p1) (snd p1) st)) =
              (t1, snd (handle_touch (fst p1) (snd p1) st), None) \<and>
            touch_run [(t1, p1), (t2, p2)] (l, st) = [True, False]) \<and>
         (t2 - t1 = 350 \<longrightarrow>
            touch_step t2 (Some p2) (t1, snd (handle_touch (fst p1) (snd p1) st)) =
              (t2, snd (handle_touch (fst p2) (snd p2) (snd (handle_touch (fst p1) (snd p1) st))),
               Some (fst (handle_touch (fst p2) (snd p2) (snd (handle_touch (fst p1) (snd p1) st))))) \<and>
            touch_run [(t1, p1), (t2, p2)] (l, st) = [True, True]) \<and>
         (\<forall>t l' s p. snd (snd (touch_step t (Some p) (l', s))) \<noteq> None \<longrightarrow> 300 < t - l')"
proof -
  let ?st1 = "snd (handle_touch (fst p1) (snd p1) st)"
  have first: "touch_step t1 (Some p1) (l, st) =
           (t1, ?st1, Some (fst (handle_touch (fst p1) (snd p1) st)))"
    using assms by (rule debounce_accept)
  have near: "touch_step t2 (Some p2) (t1, ?st1) = (t1, ?st1, None) \<and>
            touch_run [(t1, p1), (t2, p2)] (l, st) = [True, False]" if "t2 - t1 = 250"
  proof -
    from that have "t2 - t1 \<le> 300" by simp
    then have r: "touch_step t2 (Some p2) (t1, ?st1) = (t1, ?st1, None)"
      by (rule debounce_reject)
    then show ?thesis
      by (simp add: first Let_def)
  qed
  have far: "touch_step t2 (Some p2) (t1, ?st1) =
              (t2, snd (handle_touch (fst p2) (snd p2) ?st1),
               Some (fst (handle_touch (fst p2) (snd p2) ?st1))) \<and>
            touch_run [(t1, p1), (t2, p2)] (l, st) = [True, True]" if "t2 - t1 = 350"
  proof -
    from that have "of_int DEBOUNCE_MS < float_sub t2 t1"
      by (rule debounce_accept_350)
    then have r: "touch_step t2 (Some p2) (t1, ?st1) =
              (t2, snd (handle_touch (fst p2) (snd p2) ?st1),
               Some (fst (handle_touch (fst p2) (snd p2) ?st1)))"
      by (rule debounce_accept)
    then show ?thesis
      by (simp add: first Let_def)
  qed
  have sep: "\<forall>t l' s p. snd (snd (touch_step t (Some p) (l', s))) \<noteq> None \<longrightarrow> 300 < t - l'"
  proof (intro allI impI)
    fix t l' :: rat and s :: AppState and p :: "int \<times> int"
    assume a: "snd (snd (touch_step t (Some p) (l', s))) \<noteq> None"
    show "300 < t - l'"
    proof (rule ccontr)
      assume "\<not> 300 < t - l'"
      then have "t - l' \<le> 300" by simp
      then have "touch_step t (Some p) (l', s) = (l', s, None)"
        by (rule debounce_reject)
      with a show False by simp
    qed
  qed
  from first near far sep show ?thesis by blast
qed

theorem debounce_250_350_witness:
  "of_int DEBOUNCE_MS < float_sub 1000 0 \<and>
   touch_run [(1000, (50, 100)), (1250, (50, 100))] (0, AppState_init) = [True, False] \<and>
   touch_run [(1000, (50, 100)), (1350, (50, 100))] (0, AppState_init) = [True, True]"
proof -
  have h: "of_int DEBOUNCE_MS < float_sub 1000 0"
    by code_simp
  have a: "(1250::rat) - 1000 = 250" and b: "(1350::rat) - 1000 = 350"
    by simp_all
  from debounce_250_350 [of 1000 0 "(50, 100)" AppState_init 1250 "(50, 100)", OF h] a
    debounce_250_350 [of 1000 0 "(50, 100)" AppState_init 1350 "(50, 100)", OF h] b h
  show ?thesis by blast
qed

text \<open>
  Claim C9 says that a touch within 300 ms of any touch detected before it is never
  routed. With a finger held down the loop detects a touch at 1000, 1100, 1200, 1300 and
  1400 ms. None of them is inside a region. The first is routed and sets the recorded time;
  the next three are dropped and leave the recorded time at 1000; the one at 1400 is routed,
  100 ms after the touch detected at 1300.
\<close>

theorem debounce_any_detected_counterexample:
  "(1400::rat) - 1300 \<le> 300 \<and>
   touch_run [(1000, (200, 200)), (1100, (200, 200)), (1200, (200, 200)),
              (1300, (200, 200)), (1400, (200, 200))] (0, AppState_init) =
     [True, False, False, False, True]"
  by code_simp

text \<open>
  Claim C9, amended. A detected touch that passes the debounce test sets the recorded time
  to its own, also when it is inside no region and \<open>handle_touch\<close> leaves the state as it
  was; so a touch within 300 ms of the last touch that passed the test is never routed,
  whether or not that one changed the state. A detected touch that fails the test leaves
  the recorded time as it was.
\<close>

theorem debounce_window_from_last_accepted:
  "(of_int DEBOUNCE_MS < float_sub t l \<longrightarrow>
      touch_step t (Some p) (l, st) =
        (t, snd (handle_touch (fst p) (snd p) st), Some (fst (handle_touch (fst p) (snd p) st))) \<and>
      (handle_touch (fst p) (snd p) st = (False, st) \<longrightarrow>
         touch_step t (Some p) (l, st) = (t, st, Some False)) \<and>
      (t' - t \<le> 300 \<longrightarrow>
         touch_step t' (Some p') (t, snd (handle_touch (fst p) (snd p) st)) =
           (t, snd (handle_touch (fst p) (snd p) st), None))) \<and>
   (\<not> of_int DEBOUNCE_MS < float_sub t l \<longrightarrow>
      touch_step t (Some p) (l, st) = (l, st, None))"
proof -
  have a: "touch_step t (Some p) (l, st) =
        (t, snd (handle_touch (fst p) (snd p) st), Some (fst (handle_touch (fst p) (snd p) st)))"
    if "of_int DEBOUNCE_MS < float_sub t l"
    using that by (rule debounce_accept)
  have b: "touch_step t (Some p) (l, st) = (t, st, Some False)"
    if "of_int DEBOUNCE_MS < float_sub t l" "handle_touch (fst p) (snd p) st = (False, st)"
    using a [OF that(1)] that(2) by simp
  have c: "touch_step t' (Some p') (t, snd (handle_touch (fst p) (snd p) st)) =
           (t, snd (handle_touch (fst p) (snd p) st), None)" if "t' - t \<le> 300"
    using that by (rule debounce_reject)
  have d: "touch_step t (Some p) (l, st) = (l, st, None)"
    if "\<not> of_int DEBOUNCE_MS < float_sub t l"
    using that by (rule debounce_skip)
  from a b c d show ?thesis by blast
qed

theorem debounce_window_from_last_accepted_witness:
  "of_int DEBOUNCE_MS < float_sub 1000 0 \<and>
   handle_touch 200 200 AppState_init = (False, AppState_init) \<and>
   touch_step 1000 (Some (200, 200)) (0, AppState_init) = (1000, AppState_init, Some False) \<and>
   (1250::rat) - 1000 \<le> 300 \<and>
   touch_step 1250 (Some (50, 100)) (1000, AppState_init) = (1000, AppState_init, None) \<and>
   \<not> of_int DEBOUNCE_MS < float_sub 1100 1000 \<and>
   touch_step 1100 (Some (50, 100)) (1000, AppState_init) = (1000, AppState_init, None)"
proof -
  have h: "of_int DEBOUNCE_MS < float_sub 1000 0"
    by code_simp
  have n: "handle_touch 200 200 AppState_init = (False, AppState_init)"
    by (simp add: handle_touch_def AppState_init_def DASHBOARD_PIE_REGION_def truthy_def)
  have g: "(1250::rat) - 1000 \<le> 300"
    by simp
  have r: "\<not> of_int DEBOUNCE_MS < float_sub 1100 1000"
    by code_simp
  from debounce_window_from_last_accepted [of 1000 0 "(200, 200)" AppState_init 1250 "(50, 100)"]
    debounce_window_from_last_accepted [of 1100 1000 "(50, 100)" AppState_init]
    h n g r
  show ?thesis by simp
qed

section \<open>The focus timer\<close>

lemma tick_focus_idle:
  "\<not> focus_active st \<Longrightarrow> tick_focus now (l, st) = (l, st)"
  by (simp add: tick_focus_def)

lemma tick_focus_wait:
  "\<not> 60 \<le> float_sub now l \<Longrightarrow> tick_focus now (l, st) = (l, st)"
  by (simp add: tick_focus_def)

lemma tick_focus_fire:
  assumes "focus_active st" and "60 \<le> float_sub now l"
  shows "tick_focus now (l, st) =
           (now,
            if focus_session_mins st \<le> focus_elapsed_mins st + 1
            then st\<lparr>focus_elapsed_mins := focus_elapsed_mins st + 1, focus_active := False,
                    focus_message := ''Session complete!''\<rparr>
            else st\<lparr>focus_elapsed_mins := focus_elapsed_mins st + 1\<rparr>)"
  using assms by (simp add: tick_focus_def Let_def)

lemma float_sub_60: "60 \<le> now - l \<Longrightarrow> 60 \<le> float_sub now l"
  unfolding float_sub_def by (rule fl64_ge_fixed) (simp_all add: fl64_60)

lemma tick_focus_keeps_bound:
  assumes "focus_active st \<longrightarrow> focus_elapsed_mins st < focus_session_mins st"
  shows "focus_active (snd (tick_focus now (l, st))) \<longrightarrow>
           focus_elapsed_mins (snd (tick_focus now (l, st))) <
           focus_session_mins (snd (tick_focus now (l, st)))"
proof (cases "focus_active st \<and> 60 \<le> float_sub now l")
  case True
  then show ?thesis
    by (simp add: tick_focus_fire)
next
  case False
  then have "tick_focus now (l, st) = (l, st)"
    using tick_focus_idle [of st now l] tick_focus_wait [of now l st] by blast
  with assms show ?thesis by simp
qed

lemma tick_run_keeps_bound:
  assumes "focus_active st \<longrightarrow> focus_elapsed_mins st < focus_session_mins st"
  shows "focus_active (snd (tick_run nows (l, st))) \<longrightarrow>
           focus_elapsed_mins (snd (tick_run nows (l, st))) <
           focus_session_mins (snd (tick_run nows (l, st)))"
  using assms
proof (induction nows arbitrary: l st)
  case Nil
  then show ?case by simp
next
  case (Cons now nows)
  obtain l' st' where t: "tick_focus now (l, st) = (l', st')"
    by (cases "tick_focus now (l, st)")
  from tick_focus_keeps_bound [OF Cons.prems, of now l] t
  have "focus_active st' \<longrightarrow> focus_elapsed_mins st' < focus_session_mins st'"
    by simp
  from Cons.IH [OF this, of l'] t show ?case by simp
qed

lemma tick_run_idle:
  "\<not> focus_active st \<Longrightarrow> tick_run nows (l, st) = (l, st)"
  by (induction nows) (simp_all add: tick_focus_idle)

lemma session_ends:
  assumes "focus_active st"
    and "focus_session_mins st - focus_elapsed_mins st \<le> int (Suc n)"
  shows "\<not> focus_active (snd (tick_run (map (\<lambda>k. l + 60 * of_nat (Suc k)) [0..<Suc n]) (l, st)))"
  using assms
proof (induction n arbitrary: l st)
  case 0
  have f: "60 \<le> float_sub (l + 60) l"
    by (rule float_sub_60) simp
  from 0 have "focus_session_mins st \<le> focus_elapsed_mins st + 1" by simp
  with tick_focus_fire [OF 0(1) f] show ?case
    by simp
next
  case (Suc n)
  have f: "60 \<le> float_sub (l + 60) l"
    by (rule float_sub_60) simp
  let ?times = "map (\<lambda>k. l + 60 * of_nat (Suc k)) [0..<Suc (Suc n)]"
  have times: "?times = (l + 60) # map (\<lambda>k. (l + 60) + 60 * of_nat (Suc k)) [0..<Suc n]"
  proof -
    have "[0..<Suc (Suc n)] = 0 # map Suc [0..<Suc n]"
      by (simp only: map_Suc_upt upt_conv_Cons [of 0 "Suc (Suc n)"])
    then have "?times = (l + 60 * of_nat (Suc 0)) # map (\<lambda>k. l + 60 * of_nat (Suc (Suc k))) [0..<Suc n]"
      by (simp only: list.map map_map o_def)
    then show ?thesis
      by (simp add: algebra_simps)
  qed
  show ?case
  proof (cases "focus_session_mins st \<le> focus_elapsed_mins st + 1")
    case True
    with tick_focus_fire [OF Suc.prems(1) f]
    obtain st' where s: "tick_focus (l + 60) (l, st) = (l + 60, st')" "\<not> focus_active st'"
      by simp
    then show ?thesis
      unfolding times by (simp add: tick_run_idle)
  next
    case False
    let ?st' = "st\<lparr>focus_elapsed_mins := focus_elapsed_mins st + 1\<rparr>"
    from False tick_focus_fire [OF Suc.prems(1) f]
    have s: "tick_focus (l + 60) (l, st) = (l + 60, ?st')"
      by simp
    have a: "focus_active ?st'" using Suc.prems(1) by simp
    have b: "focus_session_mins ?st' - focus_elapsed_mins ?st' \<le> int (Suc n)"
      using Suc.prems(2) by simp
    from Suc.IH [OF a b, of "l + 60"] show ?thesis
      unfolding times by (simp add: s)
  qed
qed


text \<open>
  Claim C10. When the session is active and at least 60 seconds have passed since the last
  advance, \<open>tick_focus\<close> adds exactly one to \<open>focus_elapsed_mins\<close>, and when the new count
  reaches \<open>focus_session_mins\<close> it clears \<open>focus_active\<close> and sets the message to
  \<open>Session complete!\<close>. A call keeps \<open>focus_elapsed_mins < focus_session_mins\<close> for an active
  session; so from a start with a count of 0 and \<open>focus_session_mins \<ge> 1\<close>, after every
  call of any run an active session has \<open>focus_elapsed_mins < focus_session_mins\<close>. With calls
  one minute apart the session is over after as many calls as minutes were left.
\<close>

theorem tick_focus_ends_session:
  "(focus_active st \<and> 60 \<le> now - l \<longrightarrow>
      tick_focus now (l, st) =
        (now,
         if focus_session_mins st \<le> focus_elapsed_mins st + 1
         then st\<lparr>focus_elapsed_mins := focus_elapsed_mins st + 1, focus_active := False,
                 focus_message := ''Session complete!''\<rparr>
         else st\<lparr>focus_elapsed_mins := focus_elapsed_mins st + 1\<rparr>)) \<and>
   ((focus_active st \<longrightarrow> focus_elapsed_mins st < focus_session_mins st) \<longrightarrow>
      (focus_active (snd (tick_focus now (l, st))) \<longrightarrow>
         focus_elapsed_mins (snd (tick_focus now (l, st))) <
         focus_session_mins (snd (tick_focus now (l, st))))) \<and>
   (1 \<le> focus_session_mins st \<and> focus_elapsed_mins st = 0 \<longrightarrow>
      (focus_active (snd (tick_run nows (l, st))) \<longrightarrow>
         focus_elapsed_mins (snd (tick_run nows (l, st))) <
         focus_session_mins (snd (tick_run nows (l, st))))) \<and>
   (focus_active st \<and> focus_session_mins st - focus_elapsed_mins st \<le> int (Suc n) \<longrightarrow>
      \<not> focus_active (snd (tick_run (map (\<lambda>k. l + 60 * of_nat (Suc k)) [0..<Suc n]) (l, st))))"
proof -
  have a: "tick_focus now (l, st) =
        (now,
         if focus_session_mins st \<le> focus_elapsed_mins st + 1
         then st\<lparr>focus_elapsed_mins := focus_elapsed_mins st + 1, focus_active := False,
                 focus_message := ''Session complete!''\<rparr>
         else st\<lparr>focus_elapsed_mins := focus_elapsed_mins st + 1\<rparr>)"
    if "focus_active st \<and> 60 \<le> now - l"
    using that float_sub_60 [of now l] by (intro tick_focus_fire) simp_all
  have b: "focus_active (snd (tick_focus now (l, st))) \<longrightarrow>
         focus_elapsed_mins (snd (tick_focus now (l, st))) <
         focus_session_mins (snd (tick_focus now (l, st)))"
    if "focus_active st \<longrightarrow> focus_elapsed_mins st < focus_session_mins st"
    using that by (rule tick_focus_keeps_bound)
  have c: "focus_active (snd (tick_run nows (l, st))) \<longrightarrow>
         focus_elapsed_mins (snd (tick_run nows (l, st))) <
         focus_session_mins (snd (tick_run nows (l, st)))"
    if "1 \<le> focus_session_mins st \<and> focus_elapsed_mins st = 0"
    using that by (intro tick_run_keeps_bound) simp
  have d: "\<not> focus_active (snd (tick_run (map (\<lambda>k. l + 60 * of_nat (Suc k)) [0..<Suc n]) (l, st)))"
    if "focus_active st \<and> focus_session_mins st - focus_elapsed_mins st \<le> int (Suc n)"
    using that by (intro session_ends) simp_all
  from a b c d show ?thesis by blast
qed

theorem tick_focus_ends_session_witness:
  "focus_active (AppState_init\<lparr>focus_elapsed_mins := 24, focus_active := True\<rparr>) \<and>
   (60::rat) \<le> 1500 - 1440 \<and>
   tick_focus 1500 (1440, AppState_init\<lparr>focus_elapsed_mins := 24, focus_active := True\<rparr>) =
     (1500, AppState_init\<lparr>focus_elapsed_mins := 25, focus_active := False,
                          focus_message := ''Session complete!''\<rparr>) \<and>
   1 \<le> focus_session_mins (AppState_init\<lparr>focus_active := True\<rparr>) \<and>
   focus_elapsed_mins (AppState_init\<lparr>focus_active := True\<rparr>) = 0 \<and>
   focus_active (snd (tick_run [60, 90, 120] (0, AppState_init\<lparr>focus_active := True\<rparr>))) \<and>
   focus_elapsed_mins (snd (tick_run [60, 90, 120] (0, AppState_init\<lparr>focus_active := True\<rparr>))) <
     focus_session_mins (snd (tick_run [60, 90, 120] (0, AppState_init\<lparr>focus_active := True\<rparr>))) \<and>
   \<not> focus_active (snd (tick_run (map (\<lambda>k. 1440 + 60 * of_nat (Suc k)) [0..<Suc 0])
        (1440, AppState_init\<lparr>focus_elapsed_mins := 24, focus_active := True\<rparr>)))"
proof -
  let ?s24 = "AppState_init\<lparr>focus_elapsed_mins := 24, focus_active := True\<rparr>"
  let ?s0 = "AppState_init\<lparr>focus_active := True\<rparr>"
  have p1: "focus_active ?s24 \<and> (60::rat) \<le> 1500 - 1440"
    by simp
  have p2: "1 \<le> focus_session_mins ?s0 \<and> focus_elapsed_mins ?s0 = 0"
    by (simp add: AppState_init_def)
  have p3: "focus_active ?s24 \<and> focus_session_mins ?s24 - focus_elapsed_mins ?s24 \<le> int (Suc 0)"
    by (simp add: AppState_init_def)
  have act: "focus_active (snd (tick_run [60, 90, 120] (0, ?s0)))"
    by code_simp
  from tick_focus_ends_session [of ?s24 1500 1440 "[]" 0] p1 p3
  have r1: "tick_focus 1500 (1440, ?s24) =
     (1500, AppState_init\<lparr>focus_elapsed_mins := 25, focus_active := False,
                          focus_message := ''Session complete!''\<rparr>)"
    and r3: "\<not> focus_active (snd (tick_run (map (\<lambda>k. 1440 + 60 * of_nat (Suc k)) [0..<Suc 0])
        (1440, ?s24)))"
    by (simp_all add: AppState_init_def)
  from tick_focus_ends_session [of ?s0 0 0 "[60, 90, 120]" 0] p2 act
  have r2: "focus_elapsed_mins (snd (tick_run [60, 90, 120] (0, ?s0))) <
     focus_session_mins (snd (tick_run [60, 90, 120] (0, ?s0)))"
    by blast
  from p1 p2 act r1 r2 r3 show ?thesis by blast
qed

end
